theory Spec2Isabelle
  imports Main "HOL-Library.Word"
begin

unbundle bit_operations_syntax

section \<open>Machine types and page arithmetic\<close>

text \<open>
  The embedding follows the 64-bit build of the kernel: \<open>phys_addr_t\<close>, \<open>uint64_t\<close> and
  \<open>unsigned long\<close> are 64-bit words, \<open>uint32_t\<close> and \<open>unsigned int\<close> are 32-bit words,
  \<open>unsigned short\<close> is a 16-bit word.
  Arithmetic on them wraps around exactly as the C arithmetic does.
\<close>

type_synonym phys_addr_t = "64 word"
type_synonym uint64_t = "64 word"
type_synonym ulong = "64 word"
type_synonym uint32_t = "32 word"
type_synonym ushort = "16 word"

text \<open>
  Every \<open>panic\<close> of the two source files is a constructor; a failed \<open>assert\<close> and a
  dereference outside an array are errors of their own.
\<close>

datatype error =
    Assertion_failed
  | Bad_access
  | Panic_toobig
  | Panic_noseg
  | Panic_inval
  | Panic_nomem
  | Panic_invalid_selector
  | Panic_pmap
  | Panic_no_memory_loaded
  | Panic_invalid_boot_segs

text \<open>
  Modelled from the spec: \<open>PAGE_SHIFT\<close> is declared in a header outside the two source
  files; the spec names the frame size "page_size, typically 4 KiB", hence a shift of 12.
  \<open>vm_page_ptoa\<close>, \<open>vm_page_atop\<close>, \<open>vm_page_trunc\<close> and \<open>vm_page_round\<close> are the usual
  macros over that shift.
\<close>

definition PAGE_SHIFT :: nat where
  "PAGE_SHIFT = 12"

definition PAGE_SIZE :: "64 word" where
  "PAGE_SIZE = push_bit PAGE_SHIFT 1"

definition PAGE_MASK :: "64 word" where
  "PAGE_MASK = PAGE_SIZE - 1"

text \<open>
  \<open>vm_page_ptoa\<close> is a macro, \<open>page << PAGE_SHIFT\<close>: the shift is done at the width of its
  argument and wraps there.
\<close>

definition vm_page_ptoa :: "'a::len word \<Rightarrow> 'a word" where
  "vm_page_ptoa page = push_bit PAGE_SHIFT page"

definition vm_page_atop :: "64 word \<Rightarrow> 64 word" where
  "vm_page_atop addr = drop_bit PAGE_SHIFT addr"

definition vm_page_trunc :: "64 word \<Rightarrow> 64 word" where
  "vm_page_trunc addr = addr AND NOT PAGE_MASK"

definition vm_page_round :: "64 word \<Rightarrow> 64 word" where
  "vm_page_round addr = (addr + PAGE_MASK) AND NOT PAGE_MASK"

section \<open>biosmem: the bootstrap heap\<close>

record biosmem_heap =
  biosmem_heap_start :: uint32_t
  biosmem_heap_cur :: uint32_t
  biosmem_heap_end :: uint32_t

text \<open>
  \<open>biosmem_bootalloc\<close>, baremetal path (\<open>MACH_HYP\<close> undefined). The first argument is the
  value of \<open>vm_page_ready()\<close> at the call; the allocator asserts that it is false.
  The argument is an \<open>unsigned int\<close>, so \<open>vm_page_ptoa(nr_pages)\<close> shifts a 32-bit value and
  drops the bits that leave it; the assignment to \<open>size\<close> widens the result.
  \<open>size\<close> and \<open>addr\<close> are \<open>unsigned long\<close>; the cursor is a \<open>uint32_t\<close>, widened for the
  subtraction and narrowed again by the assignment. (Where \<open>unsigned long\<close> has 32 bits the
  subtraction wraps at 32 bits instead; the two comparisons then select the same cases.)
\<close>

definition biosmem_bootalloc ::
  "bool \<Rightarrow> biosmem_heap \<Rightarrow> uint32_t \<Rightarrow> error + (ulong \<times> biosmem_heap)" where
  "biosmem_bootalloc ready h nr_pages =
     (if ready then Inl Assertion_failed
      else
        let size = (ucast (vm_page_ptoa nr_pages) :: ulong) in
        if size = 0 then Inl Panic_inval
        else
          let addr = ucast (biosmem_heap_cur h) - size in
          if addr < ucast (biosmem_heap_start h) \<or> addr > ucast (biosmem_heap_cur h)
          then Inl Panic_nomem
          else Inr (addr, h\<lparr>biosmem_heap_cur := ucast addr\<rparr>))"

section \<open>biosmem: the segment table\<close>

record biosmem_segment =
  bseg_start :: phys_addr_t
  bseg_end :: phys_addr_t
  bseg_avail_start :: phys_addr_t
  bseg_avail_end :: phys_addr_t

text \<open>
  Modelled from the spec: the segment indices are declared in a header outside the source
  files. The spec lists the four priority classes in ascending priority
  (DMA, DMA32, DIRECTMAP, HIGHMEM); they are numbered in that order, and the table
  \<open>biosmem_segments\<close> has \<open>VM_PAGE_MAX_SEGS = 4\<close> slots. The table is a static array, so it
  is a total map from indices to slots, all zero before the bootstrap.
\<close>

definition VM_PAGE_SEG_DMA :: nat where "VM_PAGE_SEG_DMA = 0"
definition VM_PAGE_SEG_DMA32 :: nat where "VM_PAGE_SEG_DMA32 = 1"
definition VM_PAGE_SEG_DIRECTMAP :: nat where "VM_PAGE_SEG_DIRECTMAP = 2"
definition VM_PAGE_SEG_HIGHMEM :: nat where "VM_PAGE_SEG_HIGHMEM = 3"
definition VM_PAGE_MAX_SEGS :: nat where "VM_PAGE_MAX_SEGS = 4"

type_synonym biosmem_segments = "nat \<Rightarrow> biosmem_segment"

definition biosmem_segment_zero :: biosmem_segment where
  "biosmem_segment_zero =
     \<lparr>bseg_start = 0, bseg_end = 0, bseg_avail_start = 0, bseg_avail_end = 0\<rparr>"

definition biosmem_set_segment ::
  "biosmem_segments \<Rightarrow> nat \<Rightarrow> phys_addr_t \<Rightarrow> phys_addr_t \<Rightarrow> biosmem_segments" where
  "biosmem_set_segment segs seg_index start end' =
     segs(seg_index := (segs seg_index)\<lparr>bseg_start := start, bseg_end := end'\<rparr>)"

definition biosmem_segment_end :: "biosmem_segments \<Rightarrow> nat \<Rightarrow> phys_addr_t" where
  "biosmem_segment_end segs seg_index = bseg_end (segs seg_index)"

definition biosmem_segment_size :: "biosmem_segments \<Rightarrow> nat \<Rightarrow> phys_addr_t" where
  "biosmem_segment_size segs seg_index =
     bseg_end (segs seg_index) - bseg_start (segs seg_index)"

definition biosmem_directmap_size :: "biosmem_segments \<Rightarrow> phys_addr_t" where
  "biosmem_directmap_size segs =
     (if biosmem_segment_size segs VM_PAGE_SEG_DIRECTMAP \<noteq> 0
      then biosmem_segment_end segs VM_PAGE_SEG_DIRECTMAP
      else if biosmem_segment_size segs VM_PAGE_SEG_DMA32 \<noteq> 0
      then biosmem_segment_end segs VM_PAGE_SEG_DMA32
      else biosmem_segment_end segs VM_PAGE_SEG_DMA)"

text \<open>
  A slot of the table holds the bounds of the range \<open>[start, end)\<close> of one segment; a slot
  that the bootstrap never set is all zero, the range \<open>[0, 0)\<close>. The slot is non-empty when
  its two bounds differ, and empty when they coincide. For a slot that runs upwards
  (\<open>start \<le> end\<close>) non-empty is \<open>start < end\<close>.
\<close>

definition bseg_nonempty :: "biosmem_segments \<Rightarrow> nat \<Rightarrow> bool" where
  "bseg_nonempty segs i \<longleftrightarrow> bseg_start (segs i) \<noteq> bseg_end (segs i)"

section \<open>biosmem: the firmware memory map\<close>

text \<open>
  A map entry is the C struct; \<open>length\<close> and \<open>type\<close> are renamed because HOL has constants
  of those names. The global \<open>biosmem_map\<close> with its \<open>biosmem_map_size\<close> is the list of the
  first \<open>biosmem_map_size\<close> slots of the array; the array has room for
  \<open>2 * BIOSMEM_MAX_MAP_SIZE\<close> entries.
\<close>

record biosmem_map_entry =
  base_addr :: uint64_t
  entry_length :: uint64_t
  entry_type :: uint32_t

definition BIOSMEM_MAX_MAP_SIZE :: nat where "BIOSMEM_MAX_MAP_SIZE = 128"
definition BIOSMEM_MAP_CAPACITY :: nat where "BIOSMEM_MAP_CAPACITY = 2 * BIOSMEM_MAX_MAP_SIZE"

definition BIOSMEM_TYPE_AVAILABLE :: uint32_t where "BIOSMEM_TYPE_AVAILABLE = 1"
definition BIOSMEM_TYPE_RESERVED :: uint32_t where "BIOSMEM_TYPE_RESERVED = 2"
definition BIOSMEM_TYPE_ACPI :: uint32_t where "BIOSMEM_TYPE_ACPI = 3"
definition BIOSMEM_TYPE_NVS :: uint32_t where "BIOSMEM_TYPE_NVS = 4"
definition BIOSMEM_TYPE_UNUSABLE :: uint32_t where "BIOSMEM_TYPE_UNUSABLE = 5"
definition BIOSMEM_TYPE_DISABLED :: uint32_t where "BIOSMEM_TYPE_DISABLED = 6"

definition biosmem_map_entry_is_invalid :: "biosmem_map_entry \<Rightarrow> bool" where
  "biosmem_map_entry_is_invalid entry \<longleftrightarrow>
     base_addr entry + entry_length entry \<le> base_addr entry"

text \<open>\<open>memmove(entry, entry + 1, ...)\<close> after \<open>biosmem_map_size--\<close>: slot \<open>i\<close> is dropped.\<close>

definition map_remove_at :: "nat \<Rightarrow> biosmem_map_entry list \<Rightarrow> biosmem_map_entry list" where
  "map_remove_at i m = take i m @ drop (Suc i) m"

function biosmem_map_filter_loop ::
  "biosmem_map_entry list \<Rightarrow> nat \<Rightarrow> biosmem_map_entry list" where
  "biosmem_map_filter_loop m i =
     (if i < length m then
        (if biosmem_map_entry_is_invalid (m ! i)
         then biosmem_map_filter_loop (map_remove_at i m) i
         else biosmem_map_filter_loop m (i + 1))
      else m)"
  by pat_completeness auto
termination
  by (relation "measure (\<lambda>(m, i). 2 * length m - i)") (auto simp: map_remove_at_def)

definition biosmem_map_filter :: "biosmem_map_entry list \<Rightarrow> biosmem_map_entry list" where
  "biosmem_map_filter m = biosmem_map_filter_loop m 0"

text \<open>
  \<open>biosmem_map_sort\<close>. \<open>i\<close> and \<open>j\<close> are \<open>unsigned int\<close>: the inner loop ends either at the
  \<open>break\<close> or when \<open>j--\<close> wraps below zero, and \<open>j + 1\<close> wraps back to slot 0.
\<close>

function biosmem_map_sort_shift ::
  "biosmem_map_entry list \<Rightarrow> biosmem_map_entry \<Rightarrow> uint32_t \<Rightarrow> uint32_t
     \<Rightarrow> biosmem_map_entry list \<times> uint32_t" where
  "biosmem_map_sort_shift m tmp i j =
     (if j < i then
        (if base_addr (m ! unat j) < base_addr tmp then (m, j)
         else biosmem_map_sort_shift (m[unat (j + 1) := m ! unat j]) tmp i (j - 1))
      else (m, j))"
  by pat_completeness auto
termination
proof (relation "measure (\<lambda>(m, tmp, i, j). if j < i then unat j + 1 else 0)")
  show "wf (measure (\<lambda>(m, tmp, i, j). if j < i then unat j + 1 else 0))"
    by simp
next
  fix m :: "biosmem_map_entry list" and tmp :: biosmem_map_entry and i j :: uint32_t
  assume ji: "j < i"
  show "((m[unat (j + 1) := m ! unat j], tmp, i, j - 1), (m, tmp, i, j))
          \<in> measure (\<lambda>(m, tmp, i, j). if j < i then unat j + 1 else 0)"
  proof (cases "j = 0")
    case True
    have "\<not> (- 1 :: uint32_t) < i" by simp
    with True ji show ?thesis by simp
  next
    case False
    then have "unat (j - 1) = unat j - 1" by (simp add: unat_minus_one)
    moreover have "0 < unat j" using False by (simp add: unat_gt_0)
    ultimately show ?thesis using ji by simp
  qed
qed

lemma length_biosmem_map_sort_shift:
  "length (fst (biosmem_map_sort_shift m tmp i j)) = length m"
proof (induction m tmp i j rule: biosmem_map_sort_shift.induct)
  case (1 m tmp i j)
  show ?case
  proof (cases "j < i \<and> \<not> base_addr (m ! unat j) < base_addr tmp")
    case True
    then show ?thesis using "1.IH" by (subst biosmem_map_sort_shift.simps) simp
  next
    case False
    then show ?thesis by (subst biosmem_map_sort_shift.simps) auto
  qed
qed

lemma unat_inc_below:
  fixes i n :: uint32_t
  assumes "i < n"
  shows "unat (i + 1) = Suc (unat i)"
proof -
  have "unat i < unat n" using assms by (simp only: word_less_nat_alt)
  moreover have "unat n < 2 ^ 32" using unsigned_less [of n] by simp
  ultimately have "unat i + unat (1 :: uint32_t) < 2 ^ LENGTH(32)" by simp
  then show ?thesis by (simp add: unat_plus_if')
qed

function biosmem_map_sort_loop ::
  "biosmem_map_entry list \<Rightarrow> uint32_t \<Rightarrow> biosmem_map_entry list" where
  "biosmem_map_sort_loop m i =
     (if i < word_of_nat (length m) then
        (let tmp = m ! unat i;
             r = biosmem_map_sort_shift m tmp i (i - 1)
         in biosmem_map_sort_loop ((fst r)[unat (snd r + 1) := tmp]) (i + 1))
      else m)"
  by pat_completeness auto
termination
proof (relation "measure (\<lambda>(m, i). unat (word_of_nat (length m) :: uint32_t) - unat i)")
  show "wf (measure (\<lambda>(m, i). unat (word_of_nat (length m) :: uint32_t) - unat i))"
    by simp
next
  fix m :: "biosmem_map_entry list" and i :: uint32_t
    and tmp :: biosmem_map_entry and r :: "biosmem_map_entry list \<times> uint32_t"
  assume lt: "i < word_of_nat (length m)"
    and "tmp = m ! unat i" and r: "r = biosmem_map_sort_shift m tmp i (i - 1)"
  have len: "length (fst r) = length m"
    unfolding r by (rule length_biosmem_map_sort_shift)
  have a: "unat i < unat (word_of_nat (length m) :: uint32_t)"
    using lt by (simp only: word_less_nat_alt)
  have b: "unat (i + 1) = Suc (unat i)" using lt by (rule unat_inc_below)
  have "unat (word_of_nat (length m) :: uint32_t) - unat (i + 1)
      < unat (word_of_nat (length m) :: uint32_t) - unat i"
    using a unfolding b by arith
  then show "(((fst r)[unat (snd r + 1) := tmp], i + 1), (m, i))
      \<in> measure (\<lambda>(m, i). unat (word_of_nat (length m) :: uint32_t) - unat i)"
    by (simp only: in_measure split_conv length_list_update len)
qed

definition biosmem_map_sort :: "biosmem_map_entry list \<Rightarrow> biosmem_map_entry list" where
  "biosmem_map_sort m = biosmem_map_sort_loop m 1"

text \<open>
  \<open>biosmem_map_adjust\<close>. \<open>a\<close> is slot \<open>i\<close> and \<open>b\<close> is slot \<open>j\<close>, with \<open>i < j\<close> throughout;
  \<open>first\<close> and \<open>second\<close> alias them. \<open>a_end\<close> is computed once per outer iteration, before
  the inner loop, and is passed down unchanged. \<open>biosmem_adjust_split\<close> is the block of
  assignments from \<open>tmp.base_addr = ...\<close> to \<open>second->type = last_type\<close>; it returns the
  new \<open>a\<close>, the new \<open>b\<close> and \<open>tmp\<close>.
\<close>

definition biosmem_adjust_split ::
  "uint64_t \<Rightarrow> biosmem_map_entry \<Rightarrow> biosmem_map_entry
     \<Rightarrow> biosmem_map_entry \<times> biosmem_map_entry \<times> biosmem_map_entry" where
  "biosmem_adjust_split a_end a b =
     (let b_end = base_addr b + entry_length b;
          a_first = base_addr a < base_addr b;
          first = (if a_first then a else b);
          second = (if a_first then b else a);
          last_end = (if a_end > b_end then a_end else b_end);
          last_type = (if a_end > b_end then entry_type a else entry_type b);
          tmp_base = base_addr second;
          tmp = \<lparr>base_addr = tmp_base,
                 entry_length = min a_end b_end - tmp_base,
                 entry_type = max (entry_type a) (entry_type b)\<rparr>;
          first' = first\<lparr>entry_length := base_addr tmp - base_addr first\<rparr>;
          second_base = base_addr second + entry_length tmp;
          second' = second\<lparr>base_addr := second_base,
                            entry_length := last_end - second_base,
                            entry_type := last_type\<rparr>
      in if a_first then (first', second', tmp) else (second', first', tmp))"

text \<open>The merge at the end of the loop body: \<open>first\<close> absorbs \<open>tmp\<close>.\<close>

definition biosmem_adjust_merge ::
  "biosmem_map_entry \<Rightarrow> biosmem_map_entry \<Rightarrow> biosmem_map_entry" where
  "biosmem_adjust_merge first tmp =
     (let first1 = (if base_addr first > base_addr tmp
                    then first\<lparr>base_addr := base_addr tmp\<rparr> else first)
      in first1\<lparr>entry_length := entry_length first1 + entry_length tmp\<rparr>)"

text \<open>
  One iteration of the inner \<open>while (j < biosmem_map_size)\<close> loop: the new map and the new
  \<open>j\<close>, or the panic when the map is full.
\<close>

definition biosmem_map_adjust_step ::
  "nat \<Rightarrow> uint64_t \<Rightarrow> biosmem_map_entry list \<Rightarrow> nat
     \<Rightarrow> error + (biosmem_map_entry list \<times> nat)" where
  "biosmem_map_adjust_step i a_end m j =
     (let a = m ! i; b = m ! j; b_end = base_addr b + entry_length b in
      if base_addr a \<ge> b_end \<or> a_end \<le> base_addr b
      then Inr (m, j + 1)
      else
        (case biosmem_adjust_split a_end a b of (a', b', tmp) \<Rightarrow>
           if biosmem_map_entry_is_invalid a' \<and> biosmem_map_entry_is_invalid b'
           then Inr (map_remove_at j (m[i := tmp]), j)
           else if biosmem_map_entry_is_invalid a'
           then Inr (m[i := tmp, j := b'], j + 1)
           else if biosmem_map_entry_is_invalid b'
           then Inr (m[i := a', j := tmp], j + 1)
           else if entry_type tmp = entry_type a'
           then Inr (m[i := biosmem_adjust_merge a' tmp, j := b'], j + 1)
           else if entry_type tmp = entry_type b'
           then Inr (m[i := a', j := biosmem_adjust_merge b' tmp], j + 1)
           else if length m \<ge> BIOSMEM_MAP_CAPACITY then Inl Panic_toobig
           else Inr (m[i := a', j := b'] @ [tmp], j + 1)))"

lemma biosmem_map_adjust_step_measure:
  assumes "biosmem_map_adjust_step i a_end m j = Inr (m', j')" and "j < length m"
  shows "2 * (max (length m') BIOSMEM_MAP_CAPACITY - j') + length m'
           < 2 * (max (length m) BIOSMEM_MAP_CAPACITY - j) + length m
         \<and> length m' \<le> max (length m) BIOSMEM_MAP_CAPACITY"
proof -
  obtain a' b' tmp where sp: "biosmem_adjust_split a_end (m ! i) (m ! j) = (a', b', tmp)"
    by (cases "biosmem_adjust_split a_end (m ! i) (m ! j)") auto
  from assms(1) have
    "(m' = m \<and> j' = j + 1) \<or>
     (m' = map_remove_at j (m[i := tmp]) \<and> j' = j) \<or>
     (length m' = length m \<and> j' = j + 1) \<or>
     (length m < BIOSMEM_MAP_CAPACITY \<and> length m' = length m + 1 \<and> j' = j + 1)"
    unfolding biosmem_map_adjust_step_def Let_def sp
    by (simp split: if_splits) auto
  with assms(2) show ?thesis
    by (elim disjE) (simp_all add: map_remove_at_def max_def; arith)+
qed

function biosmem_map_adjust_inner ::
  "nat \<Rightarrow> uint64_t \<Rightarrow> biosmem_map_entry list \<Rightarrow> nat \<Rightarrow> error + biosmem_map_entry list" where
  "biosmem_map_adjust_inner i a_end m j =
     (if j < length m then
        (case biosmem_map_adjust_step i a_end m j of
           Inl e \<Rightarrow> Inl e
         | Inr (m', j') \<Rightarrow> biosmem_map_adjust_inner i a_end m' j')
      else Inr m)"
  by pat_completeness auto
termination
proof (relation "measure (\<lambda>(i, a_end, m, j).
         2 * (max (length m) BIOSMEM_MAP_CAPACITY - j) + length m)")
  show "wf (measure (\<lambda>(i :: nat, a_end :: uint64_t, m :: biosmem_map_entry list, j).
         2 * (max (length m) BIOSMEM_MAP_CAPACITY - j) + length m))"
    by simp
next
  fix i :: nat and a_end :: uint64_t and m :: "biosmem_map_entry list" and j :: nat
    and r :: "biosmem_map_entry list \<times> nat" and m' :: "biosmem_map_entry list" and j' :: nat
  assume "j < length m" and "biosmem_map_adjust_step i a_end m j = Inr r" and "(m', j') = r"
  then have "biosmem_map_adjust_step i a_end m j = Inr (m', j')" by simp
  from biosmem_map_adjust_step_measure [OF this \<open>j < length m\<close>]
  show "((i, a_end, m', j'), (i, a_end, m, j))
      \<in> measure (\<lambda>(i, a_end, m, j).
           2 * (max (length m) BIOSMEM_MAP_CAPACITY - j) + length m)"
    by simp
qed

lemma length_biosmem_map_adjust_inner:
  "biosmem_map_adjust_inner i a_end m j = Inr m' \<Longrightarrow>
     length m' \<le> max (length m) BIOSMEM_MAP_CAPACITY"
proof (induction i a_end m j rule: biosmem_map_adjust_inner.induct)
  case (1 i a_end m j)
  show ?case
  proof (cases "j < length m")
    case False
    with "1.prems" show ?thesis by simp
  next
    case True
    show ?thesis
    proof (cases "biosmem_map_adjust_step i a_end m j")
      case (Inl e)
      with "1.prems" True show ?thesis by simp
    next
      case (Inr r)
      obtain m1 j1 where r: "r = (m1, j1)" by (cases r)
      from "1.prems" True Inr r have "biosmem_map_adjust_inner i a_end m1 j1 = Inr m'"
        by simp
      from "1.IH" [OF True Inr r [symmetric] this]
      have "length m' \<le> max (length m1) BIOSMEM_MAP_CAPACITY" .
      moreover from biosmem_map_adjust_step_measure [OF Inr [unfolded r] True]
      have "length m1 \<le> max (length m) BIOSMEM_MAP_CAPACITY" by simp
      ultimately show ?thesis by simp
    qed
  qed
qed

function biosmem_map_adjust_outer ::
  "biosmem_map_entry list \<Rightarrow> nat \<Rightarrow> error + biosmem_map_entry list" where
  "biosmem_map_adjust_outer m i =
     (if i < length m then
        (let a = m ! i; a_end = base_addr a + entry_length a in
         case biosmem_map_adjust_inner i a_end m (i + 1) of
           Inl e \<Rightarrow> Inl e
         | Inr m' \<Rightarrow> biosmem_map_adjust_outer m' (i + 1))
      else Inr m)"
  by pat_completeness auto
termination
proof (relation "measure (\<lambda>(m, i). max (length m) BIOSMEM_MAP_CAPACITY - i)")
  show "wf (measure (\<lambda>(m, i). max (length m) BIOSMEM_MAP_CAPACITY - i))"
    by simp
next
  fix m :: "biosmem_map_entry list" and i :: nat and a :: biosmem_map_entry
    and a_end :: uint64_t and m' :: "biosmem_map_entry list"
  assume lt: "i < length m" and "a = m ! i" and "a_end = base_addr a + entry_length a"
    and r: "biosmem_map_adjust_inner i a_end m (i + 1) = Inr m'"
  from length_biosmem_map_adjust_inner [OF r]
  have "max (length m') BIOSMEM_MAP_CAPACITY \<le> max (length m) BIOSMEM_MAP_CAPACITY"
    by simp
  with lt show "((m', i + 1), (m, i))
      \<in> measure (\<lambda>(m, i). max (length m) BIOSMEM_MAP_CAPACITY - i)"
    by simp
qed

definition biosmem_map_adjust :: "biosmem_map_entry list \<Rightarrow> error + biosmem_map_entry list" where
  "biosmem_map_adjust m =
     (case biosmem_map_adjust_outer (biosmem_map_filter m) 0 of
        Inl e \<Rightarrow> Inl e
      | Inr m' \<Rightarrow> Inr (biosmem_map_sort m'))"

section \<open>biosmem: segment partitioning\<close>

text \<open>
  \<open>biosmem_map_find_avail\<close>: the loop over the map with its \<open>continue\<close> and \<open>break\<close>, then
  the clamping of \<open>*phys_start\<close> and \<open>*phys_end\<close>. The result is \<open>None\<close> for the error
  return \<open>-1\<close> and the new pair \<open>(*phys_start, *phys_end)\<close> for the return \<open>0\<close>.
\<close>

fun biosmem_map_find_avail_loop ::
  "biosmem_map_entry list \<Rightarrow> phys_addr_t \<Rightarrow> phys_addr_t \<Rightarrow> phys_addr_t \<Rightarrow> phys_addr_t
     \<Rightarrow> phys_addr_t \<times> phys_addr_t" where
  "biosmem_map_find_avail_loop [] phys_start phys_end seg_start seg_end = (seg_start, seg_end)"
| "biosmem_map_find_avail_loop (entry # rest) phys_start phys_end seg_start seg_end =
     (if entry_type entry \<noteq> BIOSMEM_TYPE_AVAILABLE
      then biosmem_map_find_avail_loop rest phys_start phys_end seg_start seg_end
      else
        let start = vm_page_round (base_addr entry) in
        if start \<ge> phys_end then (seg_start, seg_end)
        else
          let end' = vm_page_trunc (base_addr entry + entry_length entry) in
          if start < end' \<and> start < phys_end \<and> end' > phys_start
          then biosmem_map_find_avail_loop rest phys_start phys_end
                 (if seg_start = - 1 then start else seg_start) end'
          else biosmem_map_find_avail_loop rest phys_start phys_end seg_start seg_end)"

definition biosmem_map_find_avail ::
  "biosmem_map_entry list \<Rightarrow> phys_addr_t \<Rightarrow> phys_addr_t \<Rightarrow> (phys_addr_t \<times> phys_addr_t) option" where
  "biosmem_map_find_avail m phys_start phys_end =
     (case biosmem_map_find_avail_loop m phys_start phys_end (- 1) (- 1) of
        (seg_start, seg_end) \<Rightarrow>
          if seg_start = - 1 \<or> seg_end = - 1 then None
          else Some (if seg_start > phys_start then seg_start else phys_start,
                     if seg_end < phys_end then seg_end else phys_end))"

text \<open>
  Modelled from the spec: the physical-address thresholds of the priority classes and the
  base of usable low memory are macros of headers outside the source files. They are the
  fields of a record that the bootstrap takes as a parameter; the spec's "architectural
  ceiling" of each class is the corresponding limit.
\<close>

record biosmem_limits =
  BIOSMEM_BASE :: phys_addr_t
  VM_PAGE_DMA_LIMIT :: phys_addr_t
  VM_PAGE_DMA32_LIMIT :: phys_addr_t
  VM_PAGE_DIRECTMAP_LIMIT :: phys_addr_t
  VM_PAGE_HIGHMEM_LIMIT :: phys_addr_t

text \<open>
  The globals that \<open>biosmem_bootstrap_common\<close> writes: the adjusted map, the segment table
  and \<open>phys_last_addr\<close>.
\<close>

record biosmem_boot =
  boot_map :: "biosmem_map_entry list"
  boot_segments :: biosmem_segments
  phys_last_addr :: phys_addr_t

definition biosmem_bootstrap_common ::
  "biosmem_limits \<Rightarrow> biosmem_map_entry list \<Rightarrow> error + biosmem_boot" where
  "biosmem_bootstrap_common lim m0 =
     (case biosmem_map_adjust m0 of
        Inl e \<Rightarrow> Inl e
      | Inr m \<Rightarrow>
        (case biosmem_map_find_avail m (BIOSMEM_BASE lim) (VM_PAGE_DMA_LIMIT lim) of
           None \<Rightarrow> Inl Panic_noseg
         | Some (s0, e0) \<Rightarrow>
           let segs0 = biosmem_set_segment (\<lambda>_. biosmem_segment_zero) VM_PAGE_SEG_DMA s0 e0 in
           (case biosmem_map_find_avail m (VM_PAGE_DMA_LIMIT lim) (VM_PAGE_DMA32_LIMIT lim) of
              None \<Rightarrow> Inr \<lparr>boot_map = m, boot_segments = segs0, phys_last_addr = e0\<rparr>
            | Some (s1, e1) \<Rightarrow>
              let segs1 = biosmem_set_segment segs0 VM_PAGE_SEG_DMA32 s1 e1 in
              (case biosmem_map_find_avail m (VM_PAGE_DMA32_LIMIT lim)
                      (VM_PAGE_DIRECTMAP_LIMIT lim) of
                 None \<Rightarrow> Inr \<lparr>boot_map = m, boot_segments = segs1, phys_last_addr = e1\<rparr>
               | Some (s2, e2) \<Rightarrow>
                 let segs2 = biosmem_set_segment segs1 VM_PAGE_SEG_DIRECTMAP s2 e2 in
                 (case biosmem_map_find_avail m (VM_PAGE_DIRECTMAP_LIMIT lim)
                         (VM_PAGE_HIGHMEM_LIMIT lim) of
                    None \<Rightarrow> Inr \<lparr>boot_map = m, boot_segments = segs2, phys_last_addr = e2\<rparr>
                  | Some (s3, e3) \<Rightarrow>
                    Inr \<lparr>boot_map = m,
                         boot_segments = biosmem_set_segment segs2 VM_PAGE_SEG_HIGHMEM s3 e3,
                         phys_last_addr = e2\<rparr>)))))"

text \<open>
  The highest end address among the slots of the given indices; a slot that was never
  set is all zero and does not count.
\<close>

definition highest_segment_end :: "biosmem_segments \<Rightarrow> nat list \<Rightarrow> phys_addr_t" where
  "highest_segment_end segs idxs = fold (\<lambda>i acc. max (bseg_end (segs i)) acc) idxs 0"

section \<open>Properties of the firmware map and of one overlap resolution\<close>

definition entry_end :: "biosmem_map_entry \<Rightarrow> uint64_t" where
  "entry_end e = base_addr e + entry_length e"

definition map_sorted :: "biosmem_map_entry list \<Rightarrow> bool" where
  "map_sorted m = sorted_wrt (\<lambda>x y. base_addr x \<le> base_addr y) m"

definition entries_disjoint :: "biosmem_map_entry \<Rightarrow> biosmem_map_entry \<Rightarrow> bool" where
  "entries_disjoint x y \<longleftrightarrow> entry_end x \<le> base_addr y \<or> entry_end y \<le> base_addr x"

definition map_non_overlapping :: "biosmem_map_entry list \<Rightarrow> bool" where
  "map_non_overlapping m = sorted_wrt entries_disjoint m"

definition map_all_valid :: "biosmem_map_entry list \<Rightarrow> bool" where
  "map_all_valid m = list_all (\<lambda>e. \<not> biosmem_map_entry_is_invalid e) m"

text \<open>
  The three pieces of two intersecting ranges, as the spec words them: the prefix held by
  the entry that starts first, the intersection with the numerically higher type, and the
  suffix held by the entry that ends last.
\<close>

definition range_entry :: "uint64_t \<Rightarrow> uint64_t \<Rightarrow> uint32_t \<Rightarrow> biosmem_map_entry" where
  "range_entry lo hi ty = \<lparr>base_addr = lo, entry_length = hi - lo, entry_type = ty\<rparr>"

definition overlap_prefix :: "biosmem_map_entry \<Rightarrow> biosmem_map_entry \<Rightarrow> biosmem_map_entry" where
  "overlap_prefix a b =
     range_entry (min (base_addr a) (base_addr b)) (max (base_addr a) (base_addr b))
       (if base_addr a < base_addr b then entry_type a else entry_type b)"

definition overlap_intersection ::
  "biosmem_map_entry \<Rightarrow> biosmem_map_entry \<Rightarrow> biosmem_map_entry" where
  "overlap_intersection a b =
     range_entry (max (base_addr a) (base_addr b)) (min (entry_end a) (entry_end b))
       (max (entry_type a) (entry_type b))"

definition overlap_suffix :: "biosmem_map_entry \<Rightarrow> biosmem_map_entry \<Rightarrow> biosmem_map_entry" where
  "overlap_suffix a b =
     range_entry (min (entry_end a) (entry_end b)) (max (entry_end a) (entry_end b))
       (if entry_end a > entry_end b then entry_type a else entry_type b)"

text \<open>Two adjacent ranges of one type, joined into one entry.\<close>

definition range_join :: "biosmem_map_entry \<Rightarrow> biosmem_map_entry \<Rightarrow> biosmem_map_entry" where
  "range_join x y =
     range_entry (min (base_addr x) (base_addr y)) (max (entry_end x) (entry_end y))
       (entry_type x)"

text \<open>
  The resolution of the pair in slots \<open>i < j\<close> as the amended claim C5 words it. The slot
  of the entry that starts first receives the prefix and the other slot the suffix. A
  piece is empty when its length is zero. When both slots are left empty the intersection
  takes slot \<open>i\<close> and slot \<open>j\<close> is removed (and \<open>j\<close> stays); when one slot is left empty the
  intersection takes it; otherwise the intersection is joined to the piece in slot \<open>i\<close>
  if the types agree, else to the piece in slot \<open>j\<close> if the types agree, else it is
  appended, which is a panic when the map is full.
\<close>

definition resolve_pair_spec ::
  "nat \<Rightarrow> nat \<Rightarrow> biosmem_map_entry list \<Rightarrow> error + (biosmem_map_entry list \<times> nat)" where
  "resolve_pair_spec i j m =
     (let a = m ! i; b = m ! j;
          inter = overlap_intersection a b;
          a' = (if base_addr a < base_addr b then overlap_prefix a b else overlap_suffix a b);
          b' = (if base_addr a < base_addr b then overlap_suffix a b else overlap_prefix a b)
      in if entry_length a' = 0 \<and> entry_length b' = 0
         then Inr (map_remove_at j (m[i := inter]), j)
         else if entry_length a' = 0 then Inr (m[i := inter, j := b'], j + 1)
         else if entry_length b' = 0 then Inr (m[i := a', j := inter], j + 1)
         else if entry_type inter = entry_type a'
         then Inr (m[i := range_join a' inter, j := b'], j + 1)
         else if entry_type inter = entry_type b'
         then Inr (m[i := a', j := range_join b' inter], j + 1)
         else if length m \<ge> BIOSMEM_MAP_CAPACITY then Inl Panic_toobig
         else Inr (m[i := a', j := b'] @ [inter], j + 1))"

text \<open>
  The claim C5 as it is worded has no case for an emptied slot: whenever the intersection
  has the type of the piece left in slot \<open>i\<close> or in slot \<open>j\<close> it is merged into that piece,
  and the map keeps its length with the merged piece in place.
\<close>

definition merges_into_equal_neighbor ::
  "nat \<Rightarrow> nat \<Rightarrow> biosmem_map_entry list \<Rightarrow> error + (biosmem_map_entry list \<times> nat) \<Rightarrow> bool" where
  "merges_into_equal_neighbor i j m r =
     (let a = m ! i; b = m ! j;
          inter = overlap_intersection a b;
          a' = (if base_addr a < base_addr b then overlap_prefix a b else overlap_suffix a b);
          b' = (if base_addr a < base_addr b then overlap_suffix a b else overlap_prefix a b)
      in if entry_type inter = entry_type a'
         then r = Inr (m[i := range_join a' inter, j := b'], j + 1)
         else if entry_type inter = entry_type b'
         then r = Inr (m[i := a', j := range_join b' inter], j + 1)
         else True)"

section \<open>vm_page: descriptors, free lists and segments\<close>

definition VM_PAGE_NR_FREE_LISTS :: nat where "VM_PAGE_NR_FREE_LISTS = 11"
definition VM_PAGE_CPU_POOL_RATIO :: phys_addr_t where "VM_PAGE_CPU_POOL_RATIO = 1024"
definition VM_PAGE_CPU_POOL_MAX_SIZE :: phys_addr_t where "VM_PAGE_CPU_POOL_MAX_SIZE = 128"
definition VM_PAGE_CPU_POOL_TRANSFER_RATIO :: int where "VM_PAGE_CPU_POOL_TRANSFER_RATIO = 2"

text \<open>\<open>(unsigned short)-1\<close>.\<close>

definition VM_PAGE_ORDER_UNLISTED :: ushort where "VM_PAGE_ORDER_UNLISTED = - 1"

text \<open>
  Modelled from the spec: the page types and the selectors are declared in a header
  outside the source files. The spec names the types FREE, RESERVED, TABLE, PMAP and
  KERNEL and the selectors DMA, DMA32, DIRECTMAP and HIGHMEM; they are numbered in that
  order. Only their being distinct matters below.
\<close>

definition VM_PT_FREE :: ushort where "VM_PT_FREE = 0"
definition VM_PT_RESERVED :: ushort where "VM_PT_RESERVED = 1"
definition VM_PT_TABLE :: ushort where "VM_PT_TABLE = 2"
definition VM_PT_PMAP :: ushort where "VM_PT_PMAP = 3"
definition VM_PT_KERNEL :: ushort where "VM_PT_KERNEL = 4"

definition VM_PAGE_SEL_DMA :: uint32_t where "VM_PAGE_SEL_DMA = 0"
definition VM_PAGE_SEL_DMA32 :: uint32_t where "VM_PAGE_SEL_DMA32 = 1"
definition VM_PAGE_SEL_DIRECTMAP :: uint32_t where "VM_PAGE_SEL_DIRECTMAP = 2"
definition VM_PAGE_SEL_HIGHMEM :: uint32_t where "VM_PAGE_SEL_HIGHMEM = 3"

text \<open>
  A page descriptor, with the fields the allocator uses. A pointer to a descriptor of a
  segment is its index in the segment's array \<open>pages\<close>; \<open>pages_end\<close> is the length of that
  array. The intrusive list node of a descriptor is not a field: each list is the
  sequence of the indices linked into it, head first. \<open>order\<close> and \<open>type\<close> are
  \<open>unsigned short\<close>; an order that the code passes as \<open>unsigned int\<close> is a natural number
  here and is narrowed when it is stored or compared.
\<close>

record vm_page =
  pg_type :: ushort
  pg_seg_index :: nat
  pg_order :: ushort
  pg_phys_addr :: phys_addr_t

record vm_page_free_list =
  fl_size :: ulong
  fl_blocks :: "nat list"

record vm_page_cpu_pool =
  pool_size :: int
  pool_transfer_size :: int
  pool_nr_pages :: int
  pool_pages :: "nat list"

record vm_page_seg =
  seg_cpu_pools :: "vm_page_cpu_pool list"
  seg_start :: phys_addr_t
  seg_end :: phys_addr_t
  seg_pages :: "vm_page list"
  seg_free_lists :: "vm_page_free_list list"
  seg_nr_free_pages :: ulong

record vm_page_boot_seg =
  boot_start :: phys_addr_t
  boot_end :: phys_addr_t
  boot_avail_start :: phys_addr_t
  boot_avail_end :: phys_addr_t

text \<open>\<open>page->order = order\<close> on a descriptor of the segment.\<close>

definition seg_set_order :: "vm_page_seg \<Rightarrow> nat \<Rightarrow> ushort \<Rightarrow> vm_page_seg" where
  "seg_set_order seg page order =
     seg\<lparr>seg_pages := (seg_pages seg)[page := (seg_pages seg ! page)\<lparr>pg_order := order\<rparr>]\<rparr>"

text \<open>
  \<open>vm_page_set_type\<close>: the type of \<open>page[0]\<close> ... \<open>page[(1 << order) - 1]\<close>. Writing past
  the array is an error.
\<close>

definition vm_page_set_type ::
  "vm_page list \<Rightarrow> nat \<Rightarrow> nat \<Rightarrow> ushort \<Rightarrow> error + vm_page list" where
  "vm_page_set_type pages page order type =
     (if page + 2 ^ order \<le> length pages
      then Inr (fold (\<lambda>i ps. ps[page + i := (ps ! (page + i))\<lparr>pg_type := type\<rparr>])
                  [0..<2 ^ order] pages)
      else Inl Bad_access)"

text \<open>
  \<open>vm_page_free_list_insert\<close> and \<open>vm_page_free_list_remove\<close> on list \<open>k\<close> of the segment.
  Both read \<open>page->order\<close> for their assertion. \<open>list_remove\<close> unlinks the node from the
  list that holds it, which for a descriptor of order \<open>k\<close> is list \<open>k\<close>.
\<close>

definition vm_page_free_list_insert :: "vm_page_seg \<Rightarrow> nat \<Rightarrow> nat \<Rightarrow> error + vm_page_seg" where
  "vm_page_free_list_insert seg k page =
     (if page \<ge> length (seg_pages seg) then Inl Bad_access
      else if pg_order (seg_pages seg ! page) \<noteq> VM_PAGE_ORDER_UNLISTED then Inl Assertion_failed
      else
        let free_list = seg_free_lists seg ! k in
        Inr (seg\<lparr>seg_free_lists := (seg_free_lists seg)
               [k := free_list\<lparr>fl_size := fl_size free_list + 1,
                                fl_blocks := page # fl_blocks free_list\<rparr>]\<rparr>))"

definition vm_page_free_list_remove :: "vm_page_seg \<Rightarrow> nat \<Rightarrow> nat \<Rightarrow> error + vm_page_seg" where
  "vm_page_free_list_remove seg k page =
     (if page \<ge> length (seg_pages seg) then Inl Bad_access
      else if pg_order (seg_pages seg ! page) = VM_PAGE_ORDER_UNLISTED then Inl Assertion_failed
      else
        let free_list = seg_free_lists seg ! k in
        Inr (seg\<lparr>seg_free_lists := (seg_free_lists seg)
               [k := free_list\<lparr>fl_size := fl_size free_list - 1,
                                fl_blocks := remove1 page (fl_blocks free_list)\<rparr>]\<rparr>))"

section \<open>vm_page: the buddy allocator\<close>

text \<open>The \<open>for\<close> loop of \<open>vm_page_seg_alloc_from_buddy\<close>: the value of \<open>i\<close> after it.\<close>

function vm_page_seg_alloc_scan :: "vm_page_seg \<Rightarrow> nat \<Rightarrow> nat" where
  "vm_page_seg_alloc_scan seg i =
     (if i < VM_PAGE_NR_FREE_LISTS then
        (if fl_size (seg_free_lists seg ! i) \<noteq> 0 then i
         else vm_page_seg_alloc_scan seg (i + 1))
      else i)"
  by pat_completeness auto
termination
  by (relation "measure (\<lambda>(seg, i). VM_PAGE_NR_FREE_LISTS - i)") auto

declare vm_page_seg_alloc_scan.simps [simp del]

text \<open>The \<open>while (i > order)\<close> loop: the upper halves go back to the free lists.\<close>

function vm_page_seg_alloc_split ::
  "vm_page_seg \<Rightarrow> nat \<Rightarrow> nat \<Rightarrow> nat \<Rightarrow> error + vm_page_seg" where
  "vm_page_seg_alloc_split seg page i order =
     (if i > order then
        (let i' = i - 1; buddy = page + 2 ^ i' in
         case vm_page_free_list_insert seg i' buddy of
           Inl e \<Rightarrow> Inl e
         | Inr seg' \<Rightarrow>
             vm_page_seg_alloc_split (seg_set_order seg' buddy (word_of_nat i')) page i' order)
      else Inr seg)"
  by pat_completeness auto
termination
  by (relation "measure (\<lambda>(seg, page, i, order). i)") auto

declare vm_page_seg_alloc_split.simps [simp del]

text \<open>
  \<open>vm_page_seg_alloc_from_buddy\<close>: \<open>None\<close> is the \<open>NULL\<close> return. \<open>list_first_entry\<close> on an
  empty list does not yield a descriptor.
\<close>

definition vm_page_seg_alloc_from_buddy ::
  "vm_page_seg \<Rightarrow> nat \<Rightarrow> error + (nat option \<times> vm_page_seg)" where
  "vm_page_seg_alloc_from_buddy seg order =
     (if \<not> order < VM_PAGE_NR_FREE_LISTS then Inl Assertion_failed
      else
        let i = vm_page_seg_alloc_scan seg order in
        if i = VM_PAGE_NR_FREE_LISTS then Inr (None, seg)
        else
          (case fl_blocks (seg_free_lists seg ! i) of
             [] \<Rightarrow> Inl Bad_access
           | page # _ \<Rightarrow>
               (case vm_page_free_list_remove seg i page of
                  Inl e \<Rightarrow> Inl e
                | Inr seg1 \<Rightarrow>
                    (case vm_page_seg_alloc_split
                            (seg_set_order seg1 page VM_PAGE_ORDER_UNLISTED) page i order of
                       Inl e \<Rightarrow> Inl e
                     | Inr seg2 \<Rightarrow>
                         Inr (Some page,
                              seg2\<lparr>seg_nr_free_pages := seg_nr_free_pages seg2 - 2 ^ order\<rparr>)))))"

text \<open>
  The \<open>while\<close> loop of \<open>vm_page_seg_free_to_buddy\<close>: the segment, \<open>page\<close> and \<open>order\<close> after
  it. The descriptor of the buddy is read at \<open>buddy->order\<close>. \<open>1 << order\<close> is an \<open>int\<close>; in
  the loop \<open>order\<close> is below 10, so neither \<open>vm_page_ptoa(1 << order)\<close> nor its negation
  loses a bit and the conversion to \<open>phys_addr_t\<close> (a sign extension) gives the 64-bit mask
  written here.
\<close>

definition seg_page_index :: "vm_page_seg \<Rightarrow> phys_addr_t \<Rightarrow> nat" where
  "seg_page_index seg pa = unat (vm_page_atop (pa - seg_start seg))"

function vm_page_seg_free_merge ::
  "vm_page_seg \<Rightarrow> phys_addr_t \<Rightarrow> nat \<Rightarrow> nat \<Rightarrow> error + (vm_page_seg \<times> nat \<times> nat)" where
  "vm_page_seg_free_merge seg pa page order =
     (if order < VM_PAGE_NR_FREE_LISTS - 1 then
        (let buddy_pa = pa XOR vm_page_ptoa (2 ^ order) in
         if buddy_pa < seg_start seg \<or> buddy_pa \<ge> seg_end seg then Inr (seg, page, order)
         else
           let buddy = seg_page_index seg buddy_pa in
           if buddy \<ge> length (seg_pages seg) then Inl Bad_access
           else if pg_order (seg_pages seg ! buddy) \<noteq> word_of_nat order
           then Inr (seg, page, order)
           else
             (case vm_page_free_list_remove seg order buddy of
                Inl e \<Rightarrow> Inl e
              | Inr seg' \<Rightarrow>
                  let pa' = pa AND - vm_page_ptoa (2 ^ (order + 1)) in
                  vm_page_seg_free_merge
                    (seg_set_order seg' buddy VM_PAGE_ORDER_UNLISTED)
                    pa' (seg_page_index seg pa') (order + 1)))
      else Inr (seg, page, order))"
  by pat_completeness auto
termination
  by (relation "measure (\<lambda>(seg, pa, page, order). VM_PAGE_NR_FREE_LISTS - 1 - order)") auto

declare vm_page_seg_free_merge.simps [simp del]

definition vm_page_seg_free_to_buddy ::
  "vm_page_seg \<Rightarrow> nat \<Rightarrow> nat \<Rightarrow> error + vm_page_seg" where
  "vm_page_seg_free_to_buddy seg page order =
     (if \<not> page < length (seg_pages seg) then Inl Assertion_failed
      else if pg_order (seg_pages seg ! page) \<noteq> VM_PAGE_ORDER_UNLISTED then Inl Assertion_failed
      else if \<not> order < VM_PAGE_NR_FREE_LISTS then Inl Assertion_failed
      else
        (case vm_page_seg_free_merge seg (pg_phys_addr (seg_pages seg ! page)) page order of
           Inl e \<Rightarrow> Inl e
         | Inr (seg1, page1, order1) \<Rightarrow>
             (case vm_page_free_list_insert seg1 order1 page1 of
                Inl e \<Rightarrow> Inl e
              | Inr seg2 \<Rightarrow>
                  Inr ((seg_set_order seg2 page1 (word_of_nat order1))
                         \<lparr>seg_nr_free_pages := seg_nr_free_pages seg2 + 2 ^ order\<rparr>))))"

section \<open>vm_page: per-CPU pools\<close>

definition vm_page_cpu_pool_init :: "int \<Rightarrow> vm_page_cpu_pool" where
  "vm_page_cpu_pool_init sz =
     \<lparr>pool_size = sz,
      pool_transfer_size =
        (sz + VM_PAGE_CPU_POOL_TRANSFER_RATIO - 1) div VM_PAGE_CPU_POOL_TRANSFER_RATIO,
      pool_nr_pages = 0,
      pool_pages = []\<rparr>"

definition vm_page_cpu_pool_pop ::
  "vm_page_cpu_pool \<Rightarrow> error + (nat \<times> vm_page_cpu_pool)" where
  "vm_page_cpu_pool_pop cpu_pool =
     (if pool_nr_pages cpu_pool = 0 then Inl Assertion_failed
      else
        (case pool_pages cpu_pool of
           [] \<Rightarrow> Inl Bad_access
         | page # rest \<Rightarrow>
             Inr (page, cpu_pool\<lparr>pool_nr_pages := pool_nr_pages cpu_pool - 1,
                                pool_pages := rest\<rparr>)))"

definition vm_page_cpu_pool_push ::
  "vm_page_cpu_pool \<Rightarrow> nat \<Rightarrow> error + vm_page_cpu_pool" where
  "vm_page_cpu_pool_push cpu_pool page =
     (if \<not> pool_nr_pages cpu_pool < pool_size cpu_pool then Inl Assertion_failed
      else Inr (cpu_pool\<lparr>pool_nr_pages := pool_nr_pages cpu_pool + 1,
                         pool_pages := page # pool_pages cpu_pool\<rparr>))"

lemma vm_page_cpu_pool_push_transfer_size:
  "vm_page_cpu_pool_push cpu_pool page = Inr cpu_pool' \<Longrightarrow>
     pool_transfer_size cpu_pool' = pool_transfer_size cpu_pool"
  by (auto simp: vm_page_cpu_pool_push_def split: if_splits)

text \<open>
  The \<open>for\<close> loop of \<open>vm_page_cpu_pool_fill\<close>, from the current \<open>i\<close>: the final \<open>i\<close>, the
  pool and the segment. The pool is a field of the segment in C; the buddy functions do
  not touch it, so it is threaded separately and stored back by the caller.
\<close>

function vm_page_cpu_pool_fill_loop ::
  "vm_page_cpu_pool \<Rightarrow> vm_page_seg \<Rightarrow> int
     \<Rightarrow> error + (int \<times> vm_page_cpu_pool \<times> vm_page_seg)" where
  "vm_page_cpu_pool_fill_loop cpu_pool seg i =
     (if i < pool_transfer_size cpu_pool then
        (case vm_page_seg_alloc_from_buddy seg 0 of
           Inl e \<Rightarrow> Inl e
         | Inr (None, seg') \<Rightarrow> Inr (i, cpu_pool, seg')
         | Inr (Some page, seg') \<Rightarrow>
             (case vm_page_cpu_pool_push cpu_pool page of
                Inl e \<Rightarrow> Inl e
              | Inr cpu_pool' \<Rightarrow> vm_page_cpu_pool_fill_loop cpu_pool' seg' (i + 1)))
      else Inr (i, cpu_pool, seg))"
  by pat_completeness auto
termination
proof (relation "measure (\<lambda>(cpu_pool, seg, i). nat (pool_transfer_size cpu_pool - i))")
  show "wf (measure (\<lambda>(cpu_pool :: vm_page_cpu_pool, seg :: vm_page_seg, i).
          nat (pool_transfer_size cpu_pool - i)))"
    by simp
next
  fix cpu_pool cpu_pool' :: vm_page_cpu_pool and seg :: vm_page_seg and i :: int and page :: nat
    and r :: "nat option \<times> vm_page_seg" and seg' :: vm_page_seg and po :: "nat option"
  assume "i < pool_transfer_size cpu_pool"
    and "vm_page_cpu_pool_push cpu_pool page = Inr cpu_pool'"
  then show "((cpu_pool', seg', i + 1), (cpu_pool, seg, i))
      \<in> measure (\<lambda>(cpu_pool, seg, i). nat (pool_transfer_size cpu_pool - i))"
    by (simp add: vm_page_cpu_pool_push_transfer_size)
qed

declare vm_page_cpu_pool_fill_loop.simps [simp del]

definition vm_page_cpu_pool_fill ::
  "vm_page_cpu_pool \<Rightarrow> vm_page_seg \<Rightarrow> error + (int \<times> vm_page_cpu_pool \<times> vm_page_seg)" where
  "vm_page_cpu_pool_fill cpu_pool seg =
     (if pool_nr_pages cpu_pool \<noteq> 0 then Inl Assertion_failed
      else vm_page_cpu_pool_fill_loop cpu_pool seg 0)"

function vm_page_cpu_pool_drain_loop ::
  "vm_page_cpu_pool \<Rightarrow> vm_page_seg \<Rightarrow> int \<Rightarrow> error + (vm_page_cpu_pool \<times> vm_page_seg)" where
  "vm_page_cpu_pool_drain_loop cpu_pool seg i =
     (if i > 0 then
        (case vm_page_cpu_pool_pop cpu_pool of
           Inl e \<Rightarrow> Inl e
         | Inr (page, cpu_pool') \<Rightarrow>
             (case vm_page_seg_free_to_buddy seg page 0 of
                Inl e \<Rightarrow> Inl e
              | Inr seg' \<Rightarrow> vm_page_cpu_pool_drain_loop cpu_pool' seg' (i - 1)))
      else Inr (cpu_pool, seg))"
  by pat_completeness auto
termination
  by (relation "measure (\<lambda>(cpu_pool, seg, i). nat i)") auto

declare vm_page_cpu_pool_drain_loop.simps [simp del]

definition vm_page_cpu_pool_drain ::
  "vm_page_cpu_pool \<Rightarrow> vm_page_seg \<Rightarrow> error + (vm_page_cpu_pool \<times> vm_page_seg)" where
  "vm_page_cpu_pool_drain cpu_pool seg =
     (if pool_nr_pages cpu_pool \<noteq> pool_size cpu_pool then Inl Assertion_failed
      else vm_page_cpu_pool_drain_loop cpu_pool seg (pool_transfer_size cpu_pool))"

section \<open>vm_page: allocation and release in a segment\<close>

text \<open>
  \<open>cpu\<close> is the value of \<open>cpu_number()\<close>; \<open>vm_page_cpu_pool_get\<close> is the slot of that CPU in
  \<open>seg->cpu_pools\<close>. \<open>seg_put_pool\<close> stores a pool that was threaded separately back into
  the segment.
\<close>

definition vm_page_cpu_pool_get :: "nat \<Rightarrow> vm_page_seg \<Rightarrow> vm_page_cpu_pool" where
  "vm_page_cpu_pool_get cpu seg = seg_cpu_pools seg ! cpu"

definition seg_put_pool :: "nat \<Rightarrow> vm_page_cpu_pool \<Rightarrow> vm_page_seg \<Rightarrow> vm_page_seg" where
  "seg_put_pool cpu cpu_pool seg = seg\<lparr>seg_cpu_pools := (seg_cpu_pools seg)[cpu := cpu_pool]\<rparr>"

text \<open>
  The end of \<open>vm_page_seg_alloc\<close>: \<open>assert(page->type == VM_PT_FREE)\<close>, then
  \<open>vm_page_set_type\<close>, then the page is returned.
\<close>

definition vm_page_seg_alloc_finish ::
  "vm_page_seg \<Rightarrow> nat \<Rightarrow> nat \<Rightarrow> ushort \<Rightarrow> error + (nat option \<times> vm_page_seg)" where
  "vm_page_seg_alloc_finish seg page order type =
     (if page \<ge> length (seg_pages seg) then Inl Bad_access
      else if pg_type (seg_pages seg ! page) \<noteq> VM_PT_FREE then Inl Assertion_failed
      else
        (case vm_page_set_type (seg_pages seg) page order type of
           Inl e \<Rightarrow> Inl e
         | Inr pages' \<Rightarrow> Inr (Some page, seg\<lparr>seg_pages := pages'\<rparr>)))"

text \<open>The pop at the end of the order-0 branch, followed by the common end.\<close>

definition vm_page_seg_alloc_pop ::
  "nat \<Rightarrow> vm_page_cpu_pool \<Rightarrow> vm_page_seg \<Rightarrow> ushort
     \<Rightarrow> error + (nat option \<times> vm_page_seg)" where
  "vm_page_seg_alloc_pop cpu cpu_pool seg type =
     (case vm_page_cpu_pool_pop cpu_pool of
        Inl e \<Rightarrow> Inl e
      | Inr (page, cpu_pool') \<Rightarrow>
          vm_page_seg_alloc_finish (seg_put_pool cpu cpu_pool' seg) page 0 type)"

definition vm_page_seg_alloc ::
  "nat \<Rightarrow> vm_page_seg \<Rightarrow> nat \<Rightarrow> ushort \<Rightarrow> error + (nat option \<times> vm_page_seg)" where
  "vm_page_seg_alloc cpu seg order type =
     (if \<not> order < VM_PAGE_NR_FREE_LISTS then Inl Assertion_failed
      else if order = 0 then
        (let cpu_pool = vm_page_cpu_pool_get cpu seg in
         if pool_nr_pages cpu_pool = 0 then
           (case vm_page_cpu_pool_fill cpu_pool seg of
              Inl e \<Rightarrow> Inl e
            | Inr (filled, cpu_pool', seg') \<Rightarrow>
                if filled = 0 then Inr (None, seg_put_pool cpu cpu_pool' seg')
                else vm_page_seg_alloc_pop cpu cpu_pool' seg' type)
         else vm_page_seg_alloc_pop cpu cpu_pool seg type)
      else
        (case vm_page_seg_alloc_from_buddy seg order of
           Inl e \<Rightarrow> Inl e
         | Inr (None, seg') \<Rightarrow> Inr (None, seg')
         | Inr (Some page, seg') \<Rightarrow> vm_page_seg_alloc_finish seg' page order type))"

definition vm_page_seg_free :: "nat \<Rightarrow> vm_page_seg \<Rightarrow> nat \<Rightarrow> nat \<Rightarrow> error + vm_page_seg" where
  "vm_page_seg_free cpu seg page order =
     (if page \<ge> length (seg_pages seg) then Inl Bad_access
      else if pg_type (seg_pages seg ! page) = VM_PT_FREE then Inl Assertion_failed
      else if \<not> order < VM_PAGE_NR_FREE_LISTS then Inl Assertion_failed
      else
        (case vm_page_set_type (seg_pages seg) page order VM_PT_FREE of
           Inl e \<Rightarrow> Inl e
         | Inr pages' \<Rightarrow>
             let seg1 = seg\<lparr>seg_pages := pages'\<rparr> in
             if order = 0 then
               (let cpu_pool = vm_page_cpu_pool_get cpu seg1 in
                case (if pool_nr_pages cpu_pool = pool_size cpu_pool
                      then vm_page_cpu_pool_drain cpu_pool seg1
                      else Inr (cpu_pool, seg1)) of
                  Inl e \<Rightarrow> Inl e
                | Inr (cpu_pool', seg2) \<Rightarrow>
                    (case vm_page_cpu_pool_push cpu_pool' page of
                       Inl e \<Rightarrow> Inl e
                     | Inr cpu_pool'' \<Rightarrow> Inr (seg_put_pool cpu cpu_pool'' seg2)))
             else vm_page_seg_free_to_buddy seg1 page order))"

section \<open>vm_page: the segment table\<close>

text \<open>
  The global \<open>vm_page_segs\<close> with \<open>vm_page_segs_size\<close> is the list of the loaded segments.
  A pointer to a descriptor is the pair of its segment index and its index in that
  segment. \<open>vm_page_init_pa\<close> stores the segment index in the descriptor and nothing
  changes it; the functions that go from a descriptor to its segment through
  \<open>page->seg_index\<close> are modelled for descriptors that carry the index of the segment
  that holds them, and anything else is an error.
\<close>

type_synonym vm_page_ptr = "nat \<times> nat"

definition vm_page_segs_size :: "vm_page_seg list \<Rightarrow> uint32_t" where
  "vm_page_segs_size segs = word_of_nat (length segs)"

definition vm_page_select_alloc_seg :: "uint32_t \<Rightarrow> uint32_t \<Rightarrow> error + uint32_t" where
  "vm_page_select_alloc_seg segs_size selector =
     (if selector = VM_PAGE_SEL_DMA
      then Inr (min (segs_size - 1) (word_of_nat VM_PAGE_SEG_DMA))
      else if selector = VM_PAGE_SEL_DMA32
      then Inr (min (segs_size - 1) (word_of_nat VM_PAGE_SEG_DMA32))
      else if selector = VM_PAGE_SEL_DIRECTMAP
      then Inr (min (segs_size - 1) (word_of_nat VM_PAGE_SEG_DIRECTMAP))
      else if selector = VM_PAGE_SEL_HIGHMEM
      then Inr (min (segs_size - 1) (word_of_nat VM_PAGE_SEG_HIGHMEM))
      else Inl Panic_invalid_selector)"

text \<open>
  The \<open>for\<close> loop of \<open>vm_page_alloc_pa\<close>. \<open>i\<close> is \<open>unsigned int\<close>: \<open>i--\<close> below zero wraps
  and ends the loop.
\<close>

function vm_page_alloc_pa_loop ::
  "nat \<Rightarrow> vm_page_seg list \<Rightarrow> uint32_t \<Rightarrow> nat \<Rightarrow> ushort
     \<Rightarrow> error + (vm_page_ptr option \<times> vm_page_seg list)" where
  "vm_page_alloc_pa_loop cpu segs i order type =
     (if i < vm_page_segs_size segs then
        (case vm_page_seg_alloc cpu (segs ! unat i) order type of
           Inl e \<Rightarrow> Inl e
         | Inr (Some page, seg') \<Rightarrow> Inr (Some (unat i, page), segs[unat i := seg'])
         | Inr (None, seg') \<Rightarrow>
             vm_page_alloc_pa_loop cpu (segs[unat i := seg']) (i - 1) order type)
      else Inr (None, segs))"
  by pat_completeness auto
termination
proof (relation "measure (\<lambda>(cpu, segs, i, order, type).
         if i < vm_page_segs_size segs then unat i + 1 else 0)")
  show "wf (measure (\<lambda>(cpu :: nat, segs, i, order :: nat, type :: ushort).
         if i < vm_page_segs_size segs then unat i + 1 else 0))"
    by simp
next
  fix cpu :: nat and segs :: "vm_page_seg list" and i :: uint32_t and order :: nat
    and type :: ushort and seg' :: vm_page_seg
  assume lt: "i < vm_page_segs_size segs"
  have sz: "vm_page_segs_size (segs[unat i := seg']) = vm_page_segs_size segs"
    by (simp add: vm_page_segs_size_def)
  show "((cpu, segs[unat i := seg'], i - 1, order, type), (cpu, segs, i, order, type))
      \<in> measure (\<lambda>(cpu, segs, i, order, type).
           if i < vm_page_segs_size segs then unat i + 1 else 0)"
  proof (cases "i = 0")
    case True
    have "\<not> (- 1 :: uint32_t) < vm_page_segs_size segs" by simp
    with True lt sz show ?thesis by simp
  next
    case False
    then have "unat (i - 1) = unat i - 1" by (simp add: unat_minus_one)
    moreover have "0 < unat i" using False by (simp add: unat_gt_0)
    ultimately show ?thesis using lt sz by simp
  qed
qed

declare vm_page_alloc_pa_loop.simps [simp del]

definition vm_page_alloc_pa ::
  "nat \<Rightarrow> vm_page_seg list \<Rightarrow> nat \<Rightarrow> uint32_t \<Rightarrow> ushort
     \<Rightarrow> error + (vm_page_ptr option \<times> vm_page_seg list)" where
  "vm_page_alloc_pa cpu segs order selector type =
     (case vm_page_select_alloc_seg (vm_page_segs_size segs) selector of
        Inl e \<Rightarrow> Inl e
      | Inr i \<Rightarrow>
          (case vm_page_alloc_pa_loop cpu segs i order type of
             Inl e \<Rightarrow> Inl e
           | Inr (Some page, segs') \<Rightarrow> Inr (Some page, segs')
           | Inr (None, segs') \<Rightarrow>
               if type = VM_PT_PMAP then Inl Panic_pmap else Inr (None, segs')))"

definition vm_page_free_pa ::
  "nat \<Rightarrow> vm_page_seg list \<Rightarrow> vm_page_ptr \<Rightarrow> nat \<Rightarrow> error + vm_page_seg list" where
  "vm_page_free_pa cpu segs page order =
     (case page of (si, p) \<Rightarrow>
        if si \<ge> length segs \<or> p \<ge> length (seg_pages (segs ! si)) then Inl Bad_access
        else if \<not> pg_seg_index (seg_pages (segs ! si) ! p) < VM_PAGE_MAX_SEGS
        then Inl Assertion_failed
        else if pg_seg_index (seg_pages (segs ! si) ! p) \<noteq> si then Inl Bad_access
        else
          (case vm_page_seg_free cpu (segs ! si) p order of
             Inl e \<Rightarrow> Inl e
           | Inr seg' \<Rightarrow> Inr (segs[si := seg'])))"

fun vm_page_lookup_pa_from :: "vm_page_seg list \<Rightarrow> nat \<Rightarrow> phys_addr_t \<Rightarrow> vm_page_ptr option" where
  "vm_page_lookup_pa_from [] i pa = None"
| "vm_page_lookup_pa_from (seg # rest) i pa =
     (if pa \<ge> seg_start seg \<and> pa < seg_end seg
      then Some (i, seg_page_index seg pa)
      else vm_page_lookup_pa_from rest (i + 1) pa)"

definition vm_page_lookup_pa :: "vm_page_seg list \<Rightarrow> phys_addr_t \<Rightarrow> vm_page_ptr option" where
  "vm_page_lookup_pa segs pa = vm_page_lookup_pa_from segs 0 pa"

definition vm_page_manage :: "vm_page_seg list \<Rightarrow> vm_page_ptr \<Rightarrow> error + vm_page_seg list" where
  "vm_page_manage segs page =
     (case page of (si, p) \<Rightarrow>
        if si \<ge> length segs \<or> p \<ge> length (seg_pages (segs ! si)) then Inl Bad_access
        else if \<not> pg_seg_index (seg_pages (segs ! si) ! p) < VM_PAGE_MAX_SEGS
        then Inl Assertion_failed
        else if pg_type (seg_pages (segs ! si) ! p) \<noteq> VM_PT_RESERVED then Inl Assertion_failed
        else if pg_seg_index (seg_pages (segs ! si) ! p) \<noteq> si then Inl Bad_access
        else
          (case vm_page_set_type (seg_pages (segs ! si)) p 0 VM_PT_FREE of
             Inl e \<Rightarrow> Inl e
           | Inr pages' \<Rightarrow>
               (case vm_page_seg_free_to_buddy ((segs ! si)\<lparr>seg_pages := pages'\<rparr>) p 0 of
                  Inl e \<Rightarrow> Inl e
                | Inr seg' \<Rightarrow> Inr (segs[si := seg']))))"

section \<open>vm_page: initialisation\<close>

definition vm_page_init_pa :: "nat \<Rightarrow> phys_addr_t \<Rightarrow> vm_page" where
  "vm_page_init_pa seg_index pa =
     \<lparr>pg_type = VM_PT_RESERVED, pg_seg_index = seg_index,
      pg_order = VM_PAGE_ORDER_UNLISTED, pg_phys_addr = pa\<rparr>"

definition vm_page_free_list_init :: vm_page_free_list where
  "vm_page_free_list_init = \<lparr>fl_size = 0, fl_blocks = []\<rparr>"

definition vm_page_seg_compute_pool_size :: "phys_addr_t \<Rightarrow> phys_addr_t \<Rightarrow> int" where
  "vm_page_seg_compute_pool_size start end' =
     (let sz = vm_page_atop (end' - start) div VM_PAGE_CPU_POOL_RATIO in
      if sz = 0 then 1
      else if sz > VM_PAGE_CPU_POOL_MAX_SIZE then uint VM_PAGE_CPU_POOL_MAX_SIZE
      else uint sz)"

text \<open>
  \<open>vm_page_seg_init\<close> for the segment of index \<open>seg_index\<close> on a machine with \<open>ncpus\<close>
  processors. \<open>vm_page_load\<close> asserts that \<open>start\<close> and \<open>end\<close> are page-aligned and
  \<open>start < end\<close>; the loop over \<open>pa\<close> then initialises the descriptors of the
  \<open>vm_page_atop(end - start)\<close> frames in address order.
\<close>

definition vm_page_seg_init ::
  "nat \<Rightarrow> nat \<Rightarrow> phys_addr_t \<Rightarrow> phys_addr_t \<Rightarrow> vm_page_seg" where
  "vm_page_seg_init ncpus seg_index start end' =
     \<lparr>seg_cpu_pools =
        replicate ncpus (vm_page_cpu_pool_init (vm_page_seg_compute_pool_size start end')),
      seg_start = start,
      seg_end = end',
      seg_pages =
        map (\<lambda>k. vm_page_init_pa seg_index (start + vm_page_ptoa (word_of_nat k)))
          [0..<unat (vm_page_atop (end' - start))],
      seg_free_lists = replicate VM_PAGE_NR_FREE_LISTS vm_page_free_list_init,
      seg_nr_free_pages = 0\<rparr>"

definition vm_page_boot_seg_loaded :: "vm_page_boot_seg \<Rightarrow> bool" where
  "vm_page_boot_seg_loaded seg \<longleftrightarrow> boot_end seg \<noteq> 0"

text \<open>
  \<open>vm_page_check_boot_segs\<close> over the table \<open>vm_page_boot_segs\<close> (a list of
  \<open>VM_PAGE_MAX_SEGS\<close> slots) and the counter \<open>vm_page_segs_size\<close>.
\<close>

definition vm_page_check_boot_segs :: "vm_page_boot_seg list \<Rightarrow> nat \<Rightarrow> error + unit" where
  "vm_page_check_boot_segs boot_segs segs_size =
     (if segs_size = 0 then Inl Panic_no_memory_loaded
      else if list_all (\<lambda>i. vm_page_boot_seg_loaded (boot_segs ! i) = (i < segs_size))
                [0..<length boot_segs]
      then Inr ()
      else Inl Panic_invalid_boot_segs)"

text \<open>
  The \<open>while (page < end)\<close> loop of \<open>vm_page_setup\<close>: each frame of the available window
  becomes free and is released to the buddy system.
\<close>

function vm_page_setup_release :: "vm_page_seg \<Rightarrow> nat \<Rightarrow> nat \<Rightarrow> error + vm_page_seg" where
  "vm_page_setup_release seg page end' =
     (if page < end' then
        (if page \<ge> length (seg_pages seg) then Inl Bad_access
         else
           (case vm_page_seg_free_to_buddy
                   (seg\<lparr>seg_pages := (seg_pages seg)
                          [page := (seg_pages seg ! page)\<lparr>pg_type := VM_PT_FREE\<rparr>]\<rparr>)
                   page 0 of
              Inl e \<Rightarrow> Inl e
            | Inr seg' \<Rightarrow> vm_page_setup_release seg' (page + 1) end'))
      else Inr seg)"
  by pat_completeness auto
termination
  by (relation "measure (\<lambda>(seg, page, end'). end' - page)") auto

declare vm_page_setup_release.simps [simp del]

definition vm_page_setup_seg :: "nat \<Rightarrow> nat \<Rightarrow> vm_page_boot_seg \<Rightarrow> error + vm_page_seg" where
  "vm_page_setup_seg ncpus i boot_seg =
     vm_page_setup_release
       (vm_page_seg_init ncpus i (boot_start boot_seg) (boot_end boot_seg))
       (unat (vm_page_atop (boot_avail_start boot_seg - boot_start boot_seg)))
       (unat (vm_page_atop (boot_avail_end boot_seg - boot_start boot_seg)))"

fun vm_page_setup_segs ::
  "nat \<Rightarrow> vm_page_boot_seg list \<Rightarrow> nat \<Rightarrow> error + vm_page_seg list" where
  "vm_page_setup_segs ncpus [] i = Inr []"
| "vm_page_setup_segs ncpus (boot_seg # rest) i =
     (case vm_page_setup_seg ncpus i boot_seg of
        Inl e \<Rightarrow> Inl e
      | Inr seg \<Rightarrow>
          (case vm_page_setup_segs ncpus rest (i + 1) of
             Inl e \<Rightarrow> Inl e
           | Inr segs \<Rightarrow> Inr (seg # segs)))"

text \<open>
  The last loop of \<open>vm_page_setup\<close> marks the frames that back the descriptor table.
  \<open>pmap_steal_memory\<close> and \<open>pmap_extract\<close> belong to another module: the list \<open>table_pas\<close>
  holds the physical addresses that \<open>pmap_extract\<close> returns for the successive pages of
  the table.
\<close>

fun vm_page_setup_mark_table ::
  "vm_page_seg list \<Rightarrow> phys_addr_t list \<Rightarrow> error + vm_page_seg list" where
  "vm_page_setup_mark_table segs [] = Inr segs"
| "vm_page_setup_mark_table segs (pa # rest) =
     (case vm_page_lookup_pa segs pa of
        None \<Rightarrow> Inl Assertion_failed
      | Some (si, p) \<Rightarrow>
          if si \<ge> length segs \<or> p \<ge> length (seg_pages (segs ! si)) then Inl Bad_access
          else if pg_type (seg_pages (segs ! si) ! p) \<noteq> VM_PT_RESERVED then Inl Assertion_failed
          else
            vm_page_setup_mark_table
              (segs[si := (segs ! si)\<lparr>seg_pages := (seg_pages (segs ! si))
                           [p := (seg_pages (segs ! si) ! p)\<lparr>pg_type := VM_PT_TABLE\<rparr>]\<rparr>])
              rest)"

text \<open>
  \<open>vm_page_setup\<close>: the new segment table and the new value of \<open>vm_page_is_ready\<close>.
\<close>

definition vm_page_setup ::
  "nat \<Rightarrow> vm_page_boot_seg list \<Rightarrow> nat \<Rightarrow> phys_addr_t list
     \<Rightarrow> error + (vm_page_seg list \<times> bool)" where
  "vm_page_setup ncpus boot_segs segs_size table_pas =
     (case vm_page_check_boot_segs boot_segs segs_size of
        Inl e \<Rightarrow> Inl e
      | Inr _ \<Rightarrow>
          (case vm_page_setup_segs ncpus (take segs_size boot_segs) 0 of
             Inl e \<Rightarrow> Inl e
           | Inr segs \<Rightarrow>
               (case vm_page_setup_mark_table segs table_pas of
                  Inl e \<Rightarrow> Inl e
                | Inr segs' \<Rightarrow> Inr (segs', True))))"

section \<open>vm_page: invariants\<close>

text \<open>Free-list accounting: the sum of \<open>size[i] * 2^i\<close> over the orders.\<close>

definition free_lists_total :: "vm_page_free_list list \<Rightarrow> ulong" where
  "free_lists_total fls =
     sum_list (map (\<lambda>i. fl_size (fls ! i) * 2 ^ i) [0..<VM_PAGE_NR_FREE_LISTS])"

definition seg_accounted :: "vm_page_seg \<Rightarrow> bool" where
  "seg_accounted seg \<longleftrightarrow>
     length (seg_free_lists seg) = VM_PAGE_NR_FREE_LISTS \<and>
     seg_nr_free_pages seg = free_lists_total (seg_free_lists seg)"

section \<open>vm_page: the dispatcher as the spec words it\<close>

text \<open>
  The segment a selector names, and the walk over a list of segment indices: each segment
  is tried in turn and the first page obtained is returned.
\<close>

definition selector_segment :: "uint32_t \<Rightarrow> nat option" where
  "selector_segment selector =
     (if selector = VM_PAGE_SEL_DMA then Some VM_PAGE_SEG_DMA
      else if selector = VM_PAGE_SEL_DMA32 then Some VM_PAGE_SEG_DMA32
      else if selector = VM_PAGE_SEL_DIRECTMAP then Some VM_PAGE_SEG_DIRECTMAP
      else if selector = VM_PAGE_SEL_HIGHMEM then Some VM_PAGE_SEG_HIGHMEM
      else None)"

fun try_segments ::
  "nat \<Rightarrow> vm_page_seg list \<Rightarrow> nat list \<Rightarrow> nat \<Rightarrow> ushort
     \<Rightarrow> error + (vm_page_ptr option \<times> vm_page_seg list)" where
  "try_segments cpu segs [] order type = Inr (None, segs)"
| "try_segments cpu segs (i # rest) order type =
     (case vm_page_seg_alloc cpu (segs ! i) order type of
        Inl e \<Rightarrow> Inl e
      | Inr (Some page, seg') \<Rightarrow> Inr (Some (i, page), segs[i := seg'])
      | Inr (None, seg') \<Rightarrow> try_segments cpu (segs[i := seg']) rest order type)"

text \<open>
  The indices from the selector's segment, clamped to the highest loaded index, down to 0.
\<close>

definition permitted_segments :: "vm_page_seg list \<Rightarrow> nat \<Rightarrow> nat list" where
  "permitted_segments segs seg_index = rev [0..<Suc (min (length segs - 1) seg_index)]"

definition alloc_pa_spec ::
  "nat \<Rightarrow> vm_page_seg list \<Rightarrow> nat \<Rightarrow> nat \<Rightarrow> ushort
     \<Rightarrow> error + (vm_page_ptr option \<times> vm_page_seg list)" where
  "alloc_pa_spec cpu segs order seg_index type =
     (case try_segments cpu segs (permitted_segments segs seg_index) order type of
        Inl e \<Rightarrow> Inl e
      | Inr (Some page, segs') \<Rightarrow> Inr (Some page, segs')
      | Inr (None, segs') \<Rightarrow> if type = VM_PT_PMAP then Inl Panic_pmap else Inr (None, segs'))"

section \<open>vm_page: the buddy invariants\<close>

text \<open>
  A physical address is aligned for order \<open>k\<close> when it is a multiple of
  \<open>2^k * PAGE_SIZE\<close>.
\<close>

definition pa_aligned :: "phys_addr_t \<Rightarrow> nat \<Rightarrow> bool" where
  "pa_aligned pa k \<longleftrightarrow> pa AND (vm_page_ptoa (2 ^ k) - 1) = 0"

text \<open>
  The descriptor array covers the segment: one descriptor per frame of \<open>[start, end)\<close>,
  in address order.
\<close>

definition seg_layout_wf :: "vm_page_seg \<Rightarrow> bool" where
  "seg_layout_wf seg \<longleftrightarrow>
     seg_start seg \<le> seg_end seg \<and>
     pa_aligned (seg_start seg) 0 \<and> pa_aligned (seg_end seg) 0 \<and>
     length (seg_pages seg) = unat (vm_page_atop (seg_end seg - seg_start seg)) \<and>
     list_all (\<lambda>i. pg_phys_addr (seg_pages seg ! i) = seg_start seg + vm_page_ptoa (word_of_nat i))
       [0..<length (seg_pages seg)]"

text \<open>
  A free block of order \<open>k\<close> headed by descriptor \<open>p\<close>: it lies in the array, the head
  carries the order, the other descriptors are unlisted, every frame is of type FREE and
  the head is aligned for its order.
\<close>

definition block_wf :: "vm_page_seg \<Rightarrow> nat \<Rightarrow> nat \<Rightarrow> bool" where
  "block_wf seg k p \<longleftrightarrow>
     p + 2 ^ k \<le> length (seg_pages seg) \<and>
     pg_order (seg_pages seg ! p) = word_of_nat k \<and>
     list_all (\<lambda>j. pg_order (seg_pages seg ! (p + j)) = VM_PAGE_ORDER_UNLISTED) [1..<2 ^ k] \<and>
     list_all (\<lambda>j. pg_type (seg_pages seg ! (p + j)) = VM_PT_FREE) [0..<2 ^ k] \<and>
     pa_aligned (pg_phys_addr (seg_pages seg ! p)) k"

text \<open>
  Free list \<open>k\<close>: the counter is the length of the list, no descriptor is linked twice
  and every element heads a free block of order \<open>k\<close>.
\<close>

definition free_list_wf :: "vm_page_seg \<Rightarrow> nat \<Rightarrow> bool" where
  "free_list_wf seg k \<longleftrightarrow>
     unat (fl_size (seg_free_lists seg ! k)) = length (fl_blocks (seg_free_lists seg ! k)) \<and>
     distinct (fl_blocks (seg_free_lists seg ! k)) \<and>
     list_all (block_wf seg k) (fl_blocks (seg_free_lists seg ! k))"

text \<open>A descriptor with an order is linked into the free list of that order.\<close>

definition listed_wf :: "vm_page_seg \<Rightarrow> bool" where
  "listed_wf seg \<longleftrightarrow>
     list_all
       (\<lambda>p. pg_order (seg_pages seg ! p) = VM_PAGE_ORDER_UNLISTED \<or>
            list_ex (\<lambda>k. pg_order (seg_pages seg ! p) = word_of_nat k \<and>
                         p \<in> set (fl_blocks (seg_free_lists seg ! k)))
              [0..<VM_PAGE_NR_FREE_LISTS])
       [0..<length (seg_pages seg)]"

definition seg_buddy_inv :: "vm_page_seg \<Rightarrow> bool" where
  "seg_buddy_inv seg \<longleftrightarrow>
     seg_accounted seg \<and> seg_layout_wf seg \<and>
     list_all (free_list_wf seg) [0..<VM_PAGE_NR_FREE_LISTS] \<and>
     listed_wf seg"

section \<open>vm_page: the buddy operations as the spec words them\<close>

definition fl_push :: "nat \<Rightarrow> vm_page_free_list \<Rightarrow> vm_page_free_list" where
  "fl_push p fl = fl\<lparr>fl_size := fl_size fl + 1, fl_blocks := p # fl_blocks fl\<rparr>"

definition fl_pop :: "nat \<Rightarrow> vm_page_free_list \<Rightarrow> vm_page_free_list" where
  "fl_pop p fl = fl\<lparr>fl_size := fl_size fl - 1, fl_blocks := remove1 p (fl_blocks fl)\<rparr>"

text \<open>The smallest order \<open>i \<ge> order\<close> with a non-empty free list, if there is one.\<close>

definition smallest_nonempty :: "vm_page_seg \<Rightarrow> nat \<Rightarrow> nat option" where
  "smallest_nonempty seg order =
     find (\<lambda>i. fl_blocks (seg_free_lists seg ! i) \<noteq> []) [order..<VM_PAGE_NR_FREE_LISTS]"

text \<open>
  What an allocation of order \<open>order\<close> from list \<open>i\<close> leaves behind, as claim C2 words it:
  the head \<open>p\<close> of list \<open>i\<close> is returned unlisted; for every \<open>k\<close> from \<open>order\<close> up to
  \<open>i - 1\<close> the upper half \<open>p + 2^k\<close> is on list \<open>k\<close> with order \<open>k\<close>; nothing else changes;
  \<open>nr_free_pages\<close> drops by \<open>2^order\<close>.
\<close>

definition alloc_from_buddy_post ::
  "vm_page_seg \<Rightarrow> nat \<Rightarrow> nat \<Rightarrow> error + (nat option \<times> vm_page_seg) \<Rightarrow> bool" where
  "alloc_from_buddy_post seg order i r =
     (case r of
        Inr (Some p, seg') \<Rightarrow>
          p = hd (fl_blocks (seg_free_lists seg ! i)) \<and>
          pg_order (seg_pages seg' ! p) = VM_PAGE_ORDER_UNLISTED \<and>
          seg_nr_free_pages seg' = seg_nr_free_pages seg - 2 ^ order \<and>
          seg_free_lists seg' =
            map (\<lambda>k. if k = i then fl_pop p (seg_free_lists seg ! k)
                      else if order \<le> k \<and> k < i then fl_push (p + 2 ^ k) (seg_free_lists seg ! k)
                      else seg_free_lists seg ! k)
              [0..<VM_PAGE_NR_FREE_LISTS] \<and>
          list_all (\<lambda>k. pg_order (seg_pages seg' ! (p + 2 ^ k)) = word_of_nat k) [order..<i] \<and>
          length (seg_pages seg') = length (seg_pages seg) \<and>
          list_all (\<lambda>q. q = p \<or> q \<in> set (map (\<lambda>k. p + 2 ^ k) [order..<i]) \<or>
                        seg_pages seg' ! q = seg_pages seg ! q)
            [0..<length (seg_pages seg)] \<and>
          map pg_type (seg_pages seg') = map pg_type (seg_pages seg) \<and>
          map pg_phys_addr (seg_pages seg') = map pg_phys_addr (seg_pages seg) \<and>
          map pg_seg_index (seg_pages seg') = map pg_seg_index (seg_pages seg) \<and>
          seg_start seg' = seg_start seg \<and> seg_end seg' = seg_end seg \<and>
          seg_cpu_pools seg' = seg_cpu_pools seg
      | _ \<Rightarrow> False)"

text \<open>
  The refill of a per-CPU pool as claim C6 words it: up to \<open>n\<close> blocks of order 0 are pulled
  from the buddy, one allocation after the other, stopping at the first \<open>NULL\<close>. The result
  is the list of the pages obtained, in the order they were obtained, and the segment
  afterwards.
\<close>

fun buddy_pull :: "nat \<Rightarrow> vm_page_seg \<Rightarrow> error + (nat list \<times> vm_page_seg)" where
  "buddy_pull 0 seg = Inr ([], seg)"
| "buddy_pull (Suc n) seg =
     (case vm_page_seg_alloc_from_buddy seg 0 of
        Inl e \<Rightarrow> Inl e
      | Inr (None, seg') \<Rightarrow> Inr ([], seg')
      | Inr (Some page, seg') \<Rightarrow>
          (case buddy_pull n seg' of
             Inl e \<Rightarrow> Inl e
           | Inr (ps, seg'') \<Rightarrow> Inr (page # ps, seg'')))"

text \<open>
  The segment after an order-0 allocation that refilled the pool of \<open>cpu\<close> with the pages
  \<open>ps\<close> (the buddy is then in state \<open>seg1\<close>): every page was pushed on the pool, the one
  pushed last was popped again and has the requested type; the pool holds the others.
\<close>

definition seg_after_refill ::
  "nat \<Rightarrow> nat list \<Rightarrow> ushort \<Rightarrow> vm_page_seg \<Rightarrow> vm_page_seg" where
  "seg_after_refill cpu ps type seg1 =
     seg1\<lparr>seg_cpu_pools := (seg_cpu_pools seg1)
              [cpu := (seg_cpu_pools seg1 ! cpu)\<lparr>pool_nr_pages := int (length ps) - 1,
                                                pool_pages := tl (rev ps)\<rparr>],
           seg_pages := (seg_pages seg1)
              [last ps := (seg_pages seg1 ! last ps)\<lparr>pg_type := type\<rparr>]\<rparr>"

definition E :: "uint64_t \<Rightarrow> uint64_t \<Rightarrow> uint32_t \<Rightarrow> biosmem_map_entry" where
  "E b l t = \<lparr>base_addr = b, entry_length = l, entry_type = t\<rparr>"

text \<open>The thresholds of the 64-bit build, with low memory starting at 1 MiB.\<close>

definition limits_lp64 :: biosmem_limits where
  "limits_lp64 =
     \<lparr>BIOSMEM_BASE = 0x100000,
      VM_PAGE_DMA_LIMIT = 0x1000000,
      VM_PAGE_DMA32_LIMIT = 0x100000000,
      VM_PAGE_DIRECTMAP_LIMIT = 0x400000000000,
      VM_PAGE_HIGHMEM_LIMIT = 0x10000000000000\<rparr>"

text \<open>A machine with 2 GiB of memory: conventional memory and one range above 1 MiB.\<close>

definition map_2g :: "biosmem_map_entry list" where
  "map_2g = [E 0 0x9FC00 1, E 0x100000 0x7FF00000 1]"

definition boot_2g :: biosmem_boot where
  "boot_2g =
     \<lparr>boot_map = map_2g,
      boot_segments =
        biosmem_set_segment
          (biosmem_set_segment (\<lambda>_. biosmem_segment_zero) VM_PAGE_SEG_DMA 0x100000 0x1000000)
          VM_PAGE_SEG_DMA32 0x1000000 0x80000000,
      phys_last_addr = 0x80000000\<rparr>"

text \<open>A single available range that reaches above the direct-map limit.\<close>

definition map_128t :: "biosmem_map_entry list" where
  "map_128t = [E 0 0x800000000000 1]"

definition boot_128t :: biosmem_boot where
  "boot_128t =
     \<lparr>boot_map = map_128t,
      boot_segments =
        biosmem_set_segment
          (biosmem_set_segment
            (biosmem_set_segment
              (biosmem_set_segment (\<lambda>_. biosmem_segment_zero) VM_PAGE_SEG_DMA
                 0x100000 0x1000000)
              VM_PAGE_SEG_DMA32 0x1000000 0x100000000)
            VM_PAGE_SEG_DIRECTMAP 0x100000000 0x400000000000)
          VM_PAGE_SEG_HIGHMEM 0x400000000000 0x800000000000,
      phys_last_addr = 0x400000000000\<rparr>"

text \<open>A machine with 8 MiB of memory: nothing above the DMA limit.\<close>

definition map_8m :: "biosmem_map_entry list" where
  "map_8m = [E 0 0x9FC00 1, E 0x100000 0x700000 1]"

definition boot_8m :: biosmem_boot where
  "boot_8m =
     \<lparr>boot_map = map_8m,
      boot_segments =
        biosmem_set_segment (\<lambda>_. biosmem_segment_zero) VM_PAGE_SEG_DMA 0x100000 0x800000,
      phys_last_addr = 0x800000\<rparr>"

text \<open>
  A bootstrap heap from 1 MiB to 8 MiB with nothing allocated yet: the cursor is at the
  end.
\<close>

definition heap_7m :: biosmem_heap where
  "heap_7m =
     \<lparr>biosmem_heap_start = 0x100000, biosmem_heap_cur = 0x800000, biosmem_heap_end = 0x800000\<rparr>"

text \<open>
  A machine with one processor and one segment of four frames at 1 MiB, all of them
  available; the other slots of the boot table are empty.
\<close>

definition boot_seg_4 :: vm_page_boot_seg where
  "boot_seg_4 = \<lparr>boot_start = 0x100000, boot_end = 0x104000,
                 boot_avail_start = 0x100000, boot_avail_end = 0x104000\<rparr>"

definition boot_seg_none :: vm_page_boot_seg where
  "boot_seg_none = \<lparr>boot_start = 0, boot_end = 0, boot_avail_start = 0, boot_avail_end = 0\<rparr>"

definition boot_table_4 :: "vm_page_boot_seg list" where
  "boot_table_4 = [boot_seg_4, boot_seg_none, boot_seg_none, boot_seg_none]"

text \<open>
  The states of that segment: after \<open>vm_page_setup\<close> (one free block of order 2), after
  one \<open>vm_page_alloc_pa\<close> of order 0 (frame 0 handed out through the pool) and after that
  frame is freed again (it stays in the pool).
\<close>

definition free_lists_4 :: "nat list \<Rightarrow> nat list \<Rightarrow> nat list \<Rightarrow> vm_page_free_list list" where
  "free_lists_4 b0 b1 b2 =
     [\<lparr>fl_size = word_of_nat (length b0), fl_blocks = b0\<rparr>,
      \<lparr>fl_size = word_of_nat (length b1), fl_blocks = b1\<rparr>,
      \<lparr>fl_size = word_of_nat (length b2), fl_blocks = b2\<rparr>]
     @ replicate 8 vm_page_free_list_init"

definition pages_4 :: "nat \<Rightarrow> phys_addr_t \<Rightarrow> (ushort \<times> ushort) list \<Rightarrow> vm_page list" where
  "pages_4 si start tos =
     map (\<lambda>(k, (t, ord)). \<lparr>pg_type = t, pg_seg_index = si, pg_order = ord,
                            pg_phys_addr = start + vm_page_ptoa (word_of_nat k)\<rparr>)
       (zip [0..<4] tos)"

definition seg_4_at ::
  "nat \<Rightarrow> phys_addr_t \<Rightarrow> vm_page_cpu_pool \<Rightarrow> (ushort \<times> ushort) list
     \<Rightarrow> vm_page_free_list list \<Rightarrow> ulong \<Rightarrow> vm_page_seg" where
  "seg_4_at si start cpu_pool tos fls nr_free =
     \<lparr>seg_cpu_pools = [cpu_pool], seg_start = start, seg_end = start + 0x4000,
      seg_pages = pages_4 si start tos, seg_free_lists = fls, seg_nr_free_pages = nr_free\<rparr>"

definition seg_4 ::
  "vm_page_cpu_pool \<Rightarrow> (ushort \<times> ushort) list \<Rightarrow> vm_page_free_list list \<Rightarrow> ulong
     \<Rightarrow> vm_page_seg" where
  "seg_4 = seg_4_at 0 0x100000"

definition pool_1 :: "nat list \<Rightarrow> vm_page_cpu_pool" where
  "pool_1 ps = \<lparr>pool_size = 1, pool_transfer_size = 1,
                pool_nr_pages = int (length ps), pool_pages = ps\<rparr>"

definition seg_4_setup :: vm_page_seg where
  "seg_4_setup =
     seg_4 (pool_1 []) [(0, 2), (0, - 1), (0, - 1), (0, - 1)] (free_lists_4 [] [] [0]) 4"

text \<open>
  The segment right after the buddy allocator has split its order-2 block for one frame:
  frame 0 is unlisted, the upper halves (frames 1 and 2) are on lists 0 and 1.
\<close>

definition seg_4_split :: vm_page_seg where
  "seg_4_split =
     seg_4 (pool_1 []) [(0, - 1), (0, 0), (0, 1), (0, - 1)] (free_lists_4 [1] [2] []) 3"

definition seg_4_alloc :: vm_page_seg where
  "seg_4_alloc =
     seg_4 (pool_1 []) [(4, - 1), (0, 0), (0, 1), (0, - 1)] (free_lists_4 [1] [2] []) 3"

definition seg_4_cached :: vm_page_seg where
  "seg_4_cached =
     seg_4 (pool_1 [0]) [(0, - 1), (0, 0), (0, 1), (0, - 1)] (free_lists_4 [1] [2] []) 3"

text \<open>
  A second segment of four frames at 16 MiB, index 1, with every frame handed out to the
  kernel; and the two-segment tables before and after an allocation that falls back to
  the first segment.
\<close>

definition seg_4_busy :: vm_page_seg where
  "seg_4_busy =
     seg_4_at 1 0x1000000 (pool_1 []) [(4, - 1), (4, - 1), (4, - 1), (4, - 1)]
       (free_lists_4 [] [] []) 0"

text \<open>
  The same four frames with a pool of size 3, hence a transfer size of 2: before an
  allocation of order 0, after the two pulls of the refill, and after the allocation.
\<close>

definition seg_4_fresh :: vm_page_seg where
  "seg_4_fresh =
     seg_4 (vm_page_cpu_pool_init 3) [(0, 2), (0, - 1), (0, - 1), (0, - 1)]
       (free_lists_4 [] [] [0]) 4"

definition seg_4_pulled :: vm_page_seg where
  "seg_4_pulled =
     seg_4 (vm_page_cpu_pool_init 3) [(0, - 1), (0, - 1), (0, 1), (0, - 1)]
       (free_lists_4 [] [2] []) 2"

definition seg_4_refilled :: vm_page_seg where
  "seg_4_refilled =
     seg_4 \<lparr>pool_size = 3, pool_transfer_size = 2, pool_nr_pages = 1, pool_pages = [0]\<rparr>
       [(0, - 1), (4, - 1), (0, 1), (0, - 1)] (free_lists_4 [] [2] []) 2"

section \<open>Theorems: the bootstrap heap\<close>

lemma unat_PAGE_SIZE: "unat PAGE_SIZE = 4096"
  by (simp add: PAGE_SIZE_def PAGE_SHIFT_def)

lemma unat_ucast_32_64: "unat (ucast (w :: 32 word) :: 64 word) = unat w"
proof -
  have "unat w < 2 ^ 32" using unsigned_less [of w] by simp
  then have "unat w < 2 ^ 64" by simp
  then show ?thesis by (simp add: unsigned_ucast_eq take_bit_nat_eq_self)
qed

lemma unat_ptoa_uint:
  "unat (ucast (vm_page_ptoa (n :: 32 word)) :: 64 word) = (unat n * 4096) mod 2 ^ 32"
proof -
  have "unat (vm_page_ptoa n) = (unat n * 4096) mod 2 ^ 32"
    by (simp add: vm_page_ptoa_def PAGE_SHIFT_def push_bit_eq_mult unat_word_ariths)
  moreover have "unat (ucast (vm_page_ptoa n) :: 64 word) = unat (vm_page_ptoa n)"
    by (rule unat_ucast_32_64)
  ultimately show ?thesis by simp
qed

text \<open>
  Every outcome of \<open>biosmem_bootalloc\<close> on the baremetal path, with \<open>vm_page_ready()\<close> false,
  over the naturals. The size is \<open>n * PAGE_SIZE\<close> reduced modulo \<open>2^32\<close>: the allocator
  panics when that is zero, panics when that many bytes below the cursor would reach below
  the heap start, and otherwise moves the cursor down by that many bytes and returns the
  new cursor. The heap bounds are not changed.
\<close>

lemma bootalloc_outcomes_mod:
  "biosmem_bootalloc False h n =
    (let sz = (unat n * unat PAGE_SIZE) mod 2 ^ 32 in
     if sz = 0 then Inl Panic_inval
     else if unat (biosmem_heap_cur h) < unat (biosmem_heap_start h) + sz
     then Inl Panic_nomem
     else Inr (word_of_nat (unat (biosmem_heap_cur h) - sz),
               h\<lparr>biosmem_heap_cur := word_of_nat (unat (biosmem_heap_cur h) - sz)\<rparr>))"
proof -
  let ?size = "ucast (vm_page_ptoa n) :: 64 word"
  let ?sz = "(unat n * 4096) mod 2 ^ 32"
  let ?cur = "ucast (biosmem_heap_cur h) :: 64 word"
  let ?start = "ucast (biosmem_heap_start h) :: 64 word"
  have usz: "unat ?size = ?sz" by (rule unat_ptoa_uint)
  have ucur: "unat ?cur = unat (biosmem_heap_cur h)" by (rule unat_ucast_32_64)
  have ustart: "unat ?start = unat (biosmem_heap_start h)" by (rule unat_ucast_32_64)
  have sz0: "?size = 0 \<longleftrightarrow> ?sz = 0"
  proof -
    have "?size = 0 \<longleftrightarrow> unat ?size = 0" by (simp add: unat_eq_0)
    then show ?thesis by (simp only: usz)
  qed
  show ?thesis
  proof (cases "?sz = 0")
    case True
    then show ?thesis
      using sz0 by (simp add: biosmem_bootalloc_def Let_def unat_PAGE_SIZE)
  next
    case n0: False
    show ?thesis
    proof (cases "?sz \<le> unat (biosmem_heap_cur h)")
      case le: True
      then have "?size \<le> ?cur" by (simp only: word_le_nat_alt usz ucur)
      then have usub: "unat (?cur - ?size) = unat (biosmem_heap_cur h) - ?sz"
        by (simp only: unat_sub usz ucur)
      then have addr: "?cur - ?size = word_of_nat (unat (biosmem_heap_cur h) - ?sz)"
        by (metis of_nat_unat ucast_id)
      have notgt: "\<not> (?cur - ?size > ?cur)"
        by (simp add: word_less_nat_alt usub ucur)
      have lt: "?cur - ?size < ?start \<longleftrightarrow>
          unat (biosmem_heap_cur h) < unat (biosmem_heap_start h) + ?sz"
        using le by (simp only: word_less_nat_alt usub ustart) linarith
      have narrow: "(ucast (?cur - ?size) :: 32 word) =
          word_of_nat (unat (biosmem_heap_cur h) - ?sz)"
        using of_nat_unat [of "?cur - ?size", where ?'a = "32 word"] by (simp only: usub)
      show ?thesis
      proof (cases "unat (biosmem_heap_cur h) < unat (biosmem_heap_start h) + ?sz")
        case True
        with lt have "?cur - ?size < ?start" by simp
        with n0 sz0 True show ?thesis
          by (simp add: biosmem_bootalloc_def Let_def unat_PAGE_SIZE)
      next
        case False
        with lt have "\<not> ?cur - ?size < ?start" by simp
        with notgt n0 sz0 have "biosmem_bootalloc False h n =
            Inr (?cur - ?size, h\<lparr>biosmem_heap_cur := ucast (?cur - ?size)\<rparr>)"
          by (simp add: biosmem_bootalloc_def Let_def)
        also have "\<dots> = Inr (word_of_nat (unat (biosmem_heap_cur h) - ?sz),
            h\<lparr>biosmem_heap_cur := word_of_nat (unat (biosmem_heap_cur h) - ?sz)\<rparr>)"
          by (subst narrow, subst addr, rule refl)
        finally show ?thesis using n0 False
          by (simp add: Let_def unat_PAGE_SIZE del: of_nat_diff of_nat_mult)
      qed
    next
      case gt: False
      then have "\<not> ?size \<le> ?cur" by (simp add: word_le_nat_alt usz ucur)
      then have "?cur < ?size" by simp
      then have "?cur - ?size > ?cur"
        by (simp add: sub_wrap_lt)
      then show ?thesis using n0 gt sz0
        by (simp add: biosmem_bootalloc_def Let_def unat_PAGE_SIZE)
    qed
  qed
qed

text \<open>
  Claim C8 says that a request of \<open>n\<close> pages moves the cursor down by \<open>n * PAGE_SIZE\<close> or
  panics, and that the panic for an empty request is the one for \<open>n = 0\<close>. The page count is
  an \<open>unsigned int\<close> and is shifted as such, so from \<open>2^20\<close> pages on the size loses its high
  bits. With the heap from 1 MiB to 8 MiB and the cursor at its end, a request of
  \<open>0x100001\<close> pages (4 GiB and one page, more than the heap holds) does not panic: it
  returns \<open>0x7FF000\<close> and moves the cursor down by one page, exactly as a request of one
  page does. A request of \<open>0x100000\<close> pages panics with the message for a request of zero
  pages.
\<close>

theorem bootalloc_wraps_large_request:
  "biosmem_bootalloc False heap_7m 0x100001 =
     Inr (0x7FF000, heap_7m\<lparr>biosmem_heap_cur := 0x7FF000\<rparr>) \<and>
   biosmem_bootalloc False heap_7m 1 =
     Inr (0x7FF000, heap_7m\<lparr>biosmem_heap_cur := 0x7FF000\<rparr>) \<and>
   biosmem_bootalloc False heap_7m 0x100000 = Inl Panic_inval"
  by (simp add: biosmem_bootalloc_def heap_7m_def vm_page_ptoa_def PAGE_SHIFT_def Let_def)

section \<open>Theorems: firmware map and segment partitioning\<close>

lemma range_entry_simps:
  "base_addr (range_entry lo hi ty) = lo"
  "entry_length (range_entry lo hi ty) = hi - lo"
  "entry_type (range_entry lo hi ty) = ty"
  "entry_end (range_entry lo hi ty) = hi"
  by (simp_all add: range_entry_def entry_end_def)

lemma range_entry_invalid:
  "lo \<le> hi \<Longrightarrow>
     biosmem_map_entry_is_invalid (range_entry lo hi ty) \<longleftrightarrow>
       entry_length (range_entry lo hi ty) = 0"
  by (auto simp: biosmem_map_entry_is_invalid_def range_entry_def)

lemma adjust_merge_after:
  "lo \<le> mid \<Longrightarrow> mid \<le> hi \<Longrightarrow>
     biosmem_adjust_merge (range_entry lo mid ty) (range_entry mid hi ty') =
       range_join (range_entry lo mid ty) (range_entry mid hi ty')"
  by (simp add: biosmem_adjust_merge_def range_join_def range_entry_simps Let_def
      min_def max_def)

lemma adjust_merge_before:
  "lo \<le> mid \<Longrightarrow> mid \<le> hi \<Longrightarrow>
     biosmem_adjust_merge (range_entry mid hi ty) (range_entry lo mid ty') =
       range_join (range_entry mid hi ty) (range_entry lo mid ty')"
  by (simp add: biosmem_adjust_merge_def range_join_def range_entry_simps Let_def
      min_def max_def)

lemma adjust_split_pieces:
  "biosmem_adjust_split (entry_end a) a b =
     (if base_addr a < base_addr b
      then (overlap_prefix a b, overlap_suffix a b, overlap_intersection a b)
      else (overlap_suffix a b, overlap_prefix a b, overlap_intersection a b))"
proof -
  obtain ba la ta where a: "a = \<lparr>base_addr = ba, entry_length = la, entry_type = ta\<rparr>"
    by (cases a)
  obtain bb lb tb where b: "b = \<lparr>base_addr = bb, entry_length = lb, entry_type = tb\<rparr>"
    by (cases b)
  show ?thesis
  proof (cases "ba < bb")
    case True
    then have m: "min ba bb = ba" "max ba bb = bb" by simp_all
    show ?thesis
    proof (cases "ba + la > bb + lb")
      case gt: True
      then have "min (ba + la) (bb + lb) = bb + lb" "max (ba + la) (bb + lb) = ba + la"
        by simp_all
      with True gt m show ?thesis
        by (simp add: a b biosmem_adjust_split_def overlap_prefix_def overlap_suffix_def
            overlap_intersection_def range_entry_def entry_end_def Let_def)
    next
      case le: False
      then have "min (ba + la) (bb + lb) = ba + la" "max (ba + la) (bb + lb) = bb + lb"
        by simp_all
      with True le m show ?thesis
        by (simp add: a b biosmem_adjust_split_def overlap_prefix_def overlap_suffix_def
            overlap_intersection_def range_entry_def entry_end_def Let_def)
    qed
  next
    case False
    then have m: "min ba bb = bb" "max ba bb = ba" by simp_all
    show ?thesis
    proof (cases "ba + la > bb + lb")
      case gt: True
      then have "min (ba + la) (bb + lb) = bb + lb" "max (ba + la) (bb + lb) = ba + la"
        by simp_all
      with False gt m show ?thesis
        by (simp add: a b biosmem_adjust_split_def overlap_prefix_def overlap_suffix_def
            overlap_intersection_def range_entry_def entry_end_def Let_def)
    next
      case le: False
      then have "min (ba + la) (bb + lb) = ba + la" "max (ba + la) (bb + lb) = bb + lb"
        by simp_all
      with False le m show ?thesis
        by (simp add: a b biosmem_adjust_split_def overlap_prefix_def overlap_suffix_def
            overlap_intersection_def range_entry_def entry_end_def Let_def)
    qed
  qed
qed

text \<open>
  Claim C5, amended. One iteration of the inner loop of \<open>biosmem_map_adjust\<close> on the
  slots \<open>i < j\<close>, when \<open>a_end\<close> is the end of slot \<open>i\<close> as it stands, both entries are valid
  and their ranges intersect: the intersection gets the numerically higher type, the
  prefix keeps the type of the entry that starts first and the suffix the type of the
  entry that ends last. If the split empties both slots the intersection takes slot \<open>i\<close>
  and slot \<open>j\<close> is removed; if it empties one slot the intersection takes that slot;
  otherwise the intersection is merged into the piece of equal type (slot \<open>i\<close> first,
  then slot \<open>j\<close>), and only when neither type is equal is it appended, which is the
  panic when the map already holds \<open>2 * 128\<close> entries.
\<close>

theorem adjust_step_resolves_pair:
  assumes "i < j" and "j < length m"
    and va: "\<not> biosmem_map_entry_is_invalid (m ! i)"
    and vb: "\<not> biosmem_map_entry_is_invalid (m ! j)"
    and ov: "\<not> entries_disjoint (m ! i) (m ! j)"
  shows "biosmem_map_adjust_step i (entry_end (m ! i)) m j = resolve_pair_spec i j m"
proof -
  let ?a = "m ! i" and ?b = "m ! j"
  let ?lo = "min (base_addr ?a) (base_addr ?b)" and ?mid1 = "max (base_addr ?a) (base_addr ?b)"
  let ?mid2 = "min (entry_end ?a) (entry_end ?b)" and ?hi = "max (entry_end ?a) (entry_end ?b)"
  have a: "base_addr ?a < entry_end ?a"
    using va by (simp add: biosmem_map_entry_is_invalid_def entry_end_def)
  have b: "base_addr ?b < entry_end ?b"
    using vb by (simp add: biosmem_map_entry_is_invalid_def entry_end_def)
  have ab: "base_addr ?a < entry_end ?b" and ba: "base_addr ?b < entry_end ?a"
    using ov by (auto simp: entries_disjoint_def)
  have o1: "?lo \<le> ?mid1" by (rule order_trans [OF min.cobounded1 max.cobounded1])
  have o2: "?mid1 \<le> ?mid2" using a b ab ba by (auto simp: min_def max_def)
  have o3: "?mid2 \<le> ?hi" by (rule order_trans [OF min.cobounded1 max.cobounded1])
  have test: "\<not> (base_addr ?a \<ge> base_addr ?b + entry_length ?b
               \<or> entry_end ?a \<le> base_addr ?b)"
    using ov by (auto simp: entries_disjoint_def entry_end_def)
  have invP: "biosmem_map_entry_is_invalid (overlap_prefix ?a ?b) \<longleftrightarrow>
      entry_length (overlap_prefix ?a ?b) = 0"
    unfolding overlap_prefix_def using o1 by (rule range_entry_invalid)
  have invS: "biosmem_map_entry_is_invalid (overlap_suffix ?a ?b) \<longleftrightarrow>
      entry_length (overlap_suffix ?a ?b) = 0"
    unfolding overlap_suffix_def using o3 by (rule range_entry_invalid)
  have mP: "biosmem_adjust_merge (overlap_prefix ?a ?b) (overlap_intersection ?a ?b) =
      range_join (overlap_prefix ?a ?b) (overlap_intersection ?a ?b)"
    unfolding overlap_prefix_def overlap_intersection_def
    using o1 o2 by (rule adjust_merge_after)
  have mS: "biosmem_adjust_merge (overlap_suffix ?a ?b) (overlap_intersection ?a ?b) =
      range_join (overlap_suffix ?a ?b) (overlap_intersection ?a ?b)"
    unfolding overlap_suffix_def overlap_intersection_def
    using o2 o3 by (rule adjust_merge_before)
  show ?thesis
  proof (cases "base_addr ?a < base_addr ?b")
    case True
    with test show ?thesis
      by (simp add: biosmem_map_adjust_step_def resolve_pair_spec_def Let_def
          adjust_split_pieces invP invS mP mS)
  next
    case False
    with test show ?thesis
      by (simp add: biosmem_map_adjust_step_def resolve_pair_spec_def Let_def
          adjust_split_pieces invP invS mP mS)
  qed
qed

text \<open>
  The first scenario of the spec: \<open>[0, 0x1000)\<close> available against \<open>[0x800, 0x1800)\<close>
  reserved. The intersection is reserved and is merged into the suffix.
\<close>

theorem adjust_step_resolves_pair_witness:
  "(0 :: nat) < 1 \<and> 1 < length [E 0 0x1000 1, E 0x800 0x1000 2] \<and>
   \<not> biosmem_map_entry_is_invalid ([E 0 0x1000 1, E 0x800 0x1000 2] ! 0) \<and>
   \<not> biosmem_map_entry_is_invalid ([E 0 0x1000 1, E 0x800 0x1000 2] ! 1) \<and>
   \<not> entries_disjoint ([E 0 0x1000 1, E 0x800 0x1000 2] ! 0)
        ([E 0 0x1000 1, E 0x800 0x1000 2] ! 1) \<and>
   biosmem_map_adjust_step 0 (entry_end ([E 0 0x1000 1, E 0x800 0x1000 2] ! 0))
     [E 0 0x1000 1, E 0x800 0x1000 2] 1 =
   Inr ([E 0 0x800 1, E 0x800 0x1000 2], 2)"
proof -
  let ?m = "[E 0 0x1000 1, E 0x800 0x1000 2]"
  have h1: "(0 :: nat) < 1" and h2: "1 < length ?m" by simp_all
  have h3: "\<not> biosmem_map_entry_is_invalid (?m ! 0)"
    and h4: "\<not> biosmem_map_entry_is_invalid (?m ! 1)"
    by (simp_all add: E_def biosmem_map_entry_is_invalid_def)
  have h5: "\<not> entries_disjoint (?m ! 0) (?m ! 1)"
    by (simp add: E_def entries_disjoint_def entry_end_def)
  have r: "resolve_pair_spec 0 1 ?m = Inr ([E 0 0x800 1, E 0x800 0x1000 2], 2)"
    by (simp add: resolve_pair_spec_def E_def overlap_prefix_def overlap_suffix_def
        overlap_intersection_def range_join_def range_entry_def entry_end_def Let_def)
  from adjust_step_resolves_pair [OF h1 h2 h3 h4 h5] r h1 h2 h3 h4 h5
  show ?thesis by simp
qed

text \<open>
  Claim C5 as worded fails: \<open>[0, 0x2000)\<close> against \<open>[0, 0x1000)\<close>, both available. The
  prefix is empty, the suffix \<open>[0x1000, 0x2000)\<close> has the type of the intersection, and yet
  the intersection is not merged into it: it takes the emptied slot and stays an entry
  of its own.
\<close>

theorem adjust_step_keeps_intersection_apart:
  "\<not> biosmem_map_entry_is_invalid (E 0 0x2000 1) \<and>
   \<not> biosmem_map_entry_is_invalid (E 0 0x1000 1) \<and>
   \<not> entries_disjoint (E 0 0x2000 1) (E 0 0x1000 1) \<and>
   biosmem_map_adjust_step 0 (entry_end (E 0 0x2000 1)) [E 0 0x2000 1, E 0 0x1000 1] 1 =
     Inr ([E 0x1000 0x1000 1, E 0 0x1000 1], 2) \<and>
   \<not> merges_into_equal_neighbor 0 1 [E 0 0x2000 1, E 0 0x1000 1]
        (biosmem_map_adjust_step 0 (entry_end (E 0 0x2000 1))
           [E 0 0x2000 1, E 0 0x1000 1] 1)"
proof -
  have s: "biosmem_map_adjust_step 0 (entry_end (E 0 0x2000 1))
      [E 0 0x2000 1, E 0 0x1000 1] 1 = Inr ([E 0x1000 0x1000 1, E 0 0x1000 1], 2)"
    by (simp add: biosmem_map_adjust_step_def biosmem_adjust_split_def E_def entry_end_def
        biosmem_map_entry_is_invalid_def Let_def)
  have n: "\<not> merges_into_equal_neighbor 0 1 [E 0 0x2000 1, E 0 0x1000 1]
      (Inr ([E 0x1000 0x1000 1, E 0 0x1000 1], 2))"
    by (simp add: merges_into_equal_neighbor_def E_def overlap_prefix_def overlap_suffix_def
        overlap_intersection_def range_join_def range_entry_def entry_end_def Let_def)
  have v: "\<not> biosmem_map_entry_is_invalid (E 0 0x2000 1)"
    "\<not> biosmem_map_entry_is_invalid (E 0 0x1000 1)"
    "\<not> entries_disjoint (E 0 0x2000 1) (E 0 0x1000 1)"
    by (simp_all add: E_def biosmem_map_entry_is_invalid_def entries_disjoint_def entry_end_def)
  from s n v show ?thesis by simp
qed

text \<open>
  Claim C4 does not hold of the code. On three available ranges \<open>[0, 0x1000)\<close>,
  \<open>[0, 0x2000)\<close> and \<open>[0x1000, 0x2000)\<close> the adjustment returns a map in which
  \<open>[0x1000, 0x2000)\<close> occurs twice: resolving the first pair moves slot 0 to
  \<open>[0x1000, 0x2000)\<close>, but the inner loop goes on comparing with the end \<open>a_end\<close> that was
  computed before the move, and so takes slot 0 and the third entry for disjoint. On
  \<open>[0, 0x1000)\<close> available, \<open>[0, 0x2000)\<close> reserved and \<open>[0, 0x2000)\<close> available the same
  stale end makes the second resolution append an intersection of length zero, which
  stays in the map.
\<close>

theorem adjust_breaks_canonical_form:
  "length [E 0 0x1000 1, E 0 0x2000 1, E 0x1000 0x1000 1] \<le> BIOSMEM_MAX_MAP_SIZE \<and>
   biosmem_map_adjust [E 0 0x1000 1, E 0 0x2000 1, E 0x1000 0x1000 1] =
     Inr [E 0 0x1000 1, E 0x1000 0x1000 1, E 0x1000 0x1000 1] \<and>
   \<not> map_non_overlapping [E 0 0x1000 1, E 0x1000 0x1000 1, E 0x1000 0x1000 1] \<and>
   length [E 0 0x1000 1, E 0 0x2000 2, E 0 0x2000 1] \<le> BIOSMEM_MAX_MAP_SIZE \<and>
   biosmem_map_adjust [E 0 0x1000 1, E 0 0x2000 2, E 0 0x2000 1] =
     Inr [E 0 0x1000 2, E 0x1000 0 2, E 0x1000 0x1000 1] \<and>
   \<not> map_all_valid [E 0 0x1000 2, E 0x1000 0 2, E 0x1000 0x1000 1]"
proof -
  have "biosmem_map_adjust [E 0 0x1000 1, E 0 0x2000 1, E 0x1000 0x1000 1] =
     Inr [E 0 0x1000 1, E 0x1000 0x1000 1, E 0x1000 0x1000 1]"
    by code_simp
  moreover have "\<not> map_non_overlapping [E 0 0x1000 1, E 0x1000 0x1000 1, E 0x1000 0x1000 1]"
    by (simp add: map_non_overlapping_def entries_disjoint_def entry_end_def E_def)
  moreover have "biosmem_map_adjust [E 0 0x1000 1, E 0 0x2000 2, E 0 0x2000 1] =
     Inr [E 0 0x1000 2, E 0x1000 0 2, E 0x1000 0x1000 1]"
    by code_simp
  moreover have "\<not> map_all_valid [E 0 0x1000 2, E 0x1000 0 2, E 0x1000 0x1000 1]"
    by (simp add: map_all_valid_def biosmem_map_entry_is_invalid_def E_def)
  ultimately show ?thesis by (simp add: BIOSMEM_MAX_MAP_SIZE_def)
qed

lemma find_avail_loop_end:
  "se = - 1 \<or> ps < se \<Longrightarrow>
     snd (biosmem_map_find_avail_loop m ps pe ss se) = - 1 \<or>
     ps < snd (biosmem_map_find_avail_loop m ps pe ss se)"
  by (induction m arbitrary: ss se) (auto simp: Let_def)

lemma find_avail_bounds:
  assumes "biosmem_map_find_avail m ps pe = Some (s, e)" and "ps < pe"
  shows "ps < e \<and> e \<le> pe"
proof -
  obtain ss se where l: "biosmem_map_find_avail_loop m ps pe (- 1) (- 1) = (ss, se)"
    by (cases "biosmem_map_find_avail_loop m ps pe (- 1) (- 1)")
  from find_avail_loop_end [of "- 1" ps m pe "- 1"] l have "se = - 1 \<or> ps < se" by simp
  with assms l show ?thesis
    by (auto simp: biosmem_map_find_avail_def split: if_splits)
qed

text \<open>
  Claim C9, amended. When the thresholds increase (low-memory base below the DMA limit,
  below the DMA32 limit, below the direct-map limit) and the bootstrap returns,
  \<open>phys_last_addr\<close> is the highest end address among the DMA, DMA32 and DIRECTMAP
  segments that were loaded. A HIGHMEM segment does not count.
\<close>

theorem phys_last_addr_directmap_ceiling:
  assumes l0: "BIOSMEM_BASE lim < VM_PAGE_DMA_LIMIT lim"
    and l1: "VM_PAGE_DMA_LIMIT lim < VM_PAGE_DMA32_LIMIT lim"
    and l2: "VM_PAGE_DMA32_LIMIT lim < VM_PAGE_DIRECTMAP_LIMIT lim"
    and run: "biosmem_bootstrap_common lim m0 = Inr st"
  shows "phys_last_addr st =
     highest_segment_end (boot_segments st)
       [VM_PAGE_SEG_DMA, VM_PAGE_SEG_DMA32, VM_PAGE_SEG_DIRECTMAP]"
proof -
  note idx = VM_PAGE_SEG_DMA_def VM_PAGE_SEG_DMA32_def VM_PAGE_SEG_DIRECTMAP_def
    VM_PAGE_SEG_HIGHMEM_def
  note defs = highest_segment_end_def biosmem_set_segment_def biosmem_segment_zero_def idx
    Let_def
  from run obtain m where adj: "biosmem_map_adjust m0 = Inr m"
    by (auto simp: biosmem_bootstrap_common_def split: sum.splits)
  from run adj obtain s0 e0 where
    f0: "biosmem_map_find_avail m (BIOSMEM_BASE lim) (VM_PAGE_DMA_LIMIT lim) = Some (s0, e0)"
    by (auto simp: biosmem_bootstrap_common_def split: option.splits)
  from find_avail_bounds [OF f0 l0] have b0: "e0 \<le> VM_PAGE_DMA_LIMIT lim" by simp
  show ?thesis
  proof (cases "biosmem_map_find_avail m (VM_PAGE_DMA_LIMIT lim) (VM_PAGE_DMA32_LIMIT lim)")
    case None
    with run adj f0 show ?thesis
      by (auto simp: biosmem_bootstrap_common_def defs)
  next
    case (Some p1)
    obtain s1 e1 where p1: "p1 = (s1, e1)" by (cases p1)
    from find_avail_bounds [OF Some [unfolded p1] l1]
    have b1: "VM_PAGE_DMA_LIMIT lim < e1" "e1 \<le> VM_PAGE_DMA32_LIMIT lim" by simp_all
    have "e0 < e1" using b0 b1(1) by (rule le_less_trans)
    then have m01: "max e1 e0 = e1" by (intro max_absorb1 less_imp_le)
    show ?thesis
    proof (cases "biosmem_map_find_avail m (VM_PAGE_DMA32_LIMIT lim)
                    (VM_PAGE_DIRECTMAP_LIMIT lim)")
      case None
      with run adj f0 Some p1 m01 show ?thesis
        by (auto simp: biosmem_bootstrap_common_def defs)
    next
      case (Some p2)
      obtain s2 e2 where p2: "p2 = (s2, e2)" by (cases p2)
      from find_avail_bounds [OF Some [unfolded p2] l2]
      have b2: "VM_PAGE_DMA32_LIMIT lim < e2" by simp
      have "e1 < e2" using b1(2) b2 by (rule le_less_trans)
      then have m12: "max e2 e1 = e2" by (intro max_absorb1 less_imp_le)
      from run adj f0 \<open>biosmem_map_find_avail m (VM_PAGE_DMA_LIMIT lim)
          (VM_PAGE_DMA32_LIMIT lim) = Some p1\<close> p1 Some p2 m01 m12
      show ?thesis
        by (auto simp: biosmem_bootstrap_common_def defs split: option.splits)
    qed
  qed
qed

theorem phys_last_addr_directmap_ceiling_witness:
  "BIOSMEM_BASE limits_lp64 < VM_PAGE_DMA_LIMIT limits_lp64 \<and>
   VM_PAGE_DMA_LIMIT limits_lp64 < VM_PAGE_DMA32_LIMIT limits_lp64 \<and>
   VM_PAGE_DMA32_LIMIT limits_lp64 < VM_PAGE_DIRECTMAP_LIMIT limits_lp64 \<and>
   biosmem_bootstrap_common limits_lp64 map_2g = Inr boot_2g \<and>
   phys_last_addr boot_2g = 0x80000000 \<and>
   highest_segment_end (boot_segments boot_2g)
     [VM_PAGE_SEG_DMA, VM_PAGE_SEG_DMA32, VM_PAGE_SEG_DIRECTMAP] = 0x80000000"
proof -
  have l0: "BIOSMEM_BASE limits_lp64 < VM_PAGE_DMA_LIMIT limits_lp64"
    and l1: "VM_PAGE_DMA_LIMIT limits_lp64 < VM_PAGE_DMA32_LIMIT limits_lp64"
    and l2: "VM_PAGE_DMA32_LIMIT limits_lp64 < VM_PAGE_DIRECTMAP_LIMIT limits_lp64"
    by (simp_all add: limits_lp64_def)
  have adj: "biosmem_map_adjust map_2g = Inr map_2g"
    by code_simp
  have f0: "biosmem_map_find_avail map_2g 0x100000 0x1000000 = Some (0x100000, 0x1000000)"
    by code_simp
  have f1: "biosmem_map_find_avail map_2g 0x1000000 0x100000000 = Some (0x1000000, 0x80000000)"
    by code_simp
  have f2: "biosmem_map_find_avail map_2g 0x100000000 0x400000000000 = None"
    by code_simp
  have run: "biosmem_bootstrap_common limits_lp64 map_2g = Inr boot_2g"
    by (simp add: biosmem_bootstrap_common_def limits_lp64_def adj f0 f1 f2 boot_2g_def)
  have p: "phys_last_addr boot_2g = 0x80000000"
    by (simp add: boot_2g_def)
  from phys_last_addr_directmap_ceiling [OF l0 l1 l2 run] l0 l1 l2 run p
  show ?thesis by simp
qed

text \<open>
  Claim C9 as worded fails when a HIGHMEM segment is loaded: with one available range up
  to 128 TiB the HIGHMEM segment ends at \<open>0x800000000000\<close>, and \<open>phys_last_addr\<close> is the end
  of the DIRECTMAP segment, \<open>0x400000000000\<close>.
\<close>

theorem phys_last_addr_below_highmem_end:
  "\<exists>st. biosmem_bootstrap_common limits_lp64 map_128t = Inr st \<and>
      bseg_end (boot_segments st VM_PAGE_SEG_HIGHMEM) = 0x800000000000 \<and>
      highest_segment_end (boot_segments st)
        [VM_PAGE_SEG_DMA, VM_PAGE_SEG_DMA32, VM_PAGE_SEG_DIRECTMAP, VM_PAGE_SEG_HIGHMEM]
        = 0x800000000000 \<and>
      phys_last_addr st = 0x400000000000 \<and>
      phys_last_addr st \<noteq>
        highest_segment_end (boot_segments st)
          [VM_PAGE_SEG_DMA, VM_PAGE_SEG_DMA32, VM_PAGE_SEG_DIRECTMAP, VM_PAGE_SEG_HIGHMEM]"
proof -
  have "case biosmem_bootstrap_common limits_lp64 map_128t of
          Inl e \<Rightarrow> False
        | Inr st \<Rightarrow>
            bseg_end (boot_segments st VM_PAGE_SEG_HIGHMEM) = 0x800000000000 \<and>
            highest_segment_end (boot_segments st)
              [VM_PAGE_SEG_DMA, VM_PAGE_SEG_DMA32, VM_PAGE_SEG_DIRECTMAP, VM_PAGE_SEG_HIGHMEM]
              = 0x800000000000 \<and>
            phys_last_addr st = 0x400000000000"
    by code_simp
  then show ?thesis
    by (cases "biosmem_bootstrap_common limits_lp64 map_128t") auto
qed

section \<open>Theorems: the direct-map bound\<close>

lemma bootstrap_ends_nonzero:
  assumes l0: "BIOSMEM_BASE lim < VM_PAGE_DMA_LIMIT lim"
    and l1: "VM_PAGE_DMA_LIMIT lim < VM_PAGE_DMA32_LIMIT lim"
    and l2: "VM_PAGE_DMA32_LIMIT lim < VM_PAGE_DIRECTMAP_LIMIT lim"
    and run: "biosmem_bootstrap_common lim m0 = Inr st"
  shows "bseg_end (boot_segments st VM_PAGE_SEG_DMA) \<noteq> 0 \<and>
     (bseg_end (boot_segments st VM_PAGE_SEG_DMA32) \<noteq> 0 \<or>
        boot_segments st VM_PAGE_SEG_DMA32 = biosmem_segment_zero) \<and>
     (bseg_end (boot_segments st VM_PAGE_SEG_DIRECTMAP) \<noteq> 0 \<or>
        boot_segments st VM_PAGE_SEG_DIRECTMAP = biosmem_segment_zero)"
proof -
  note idx = VM_PAGE_SEG_DMA_def VM_PAGE_SEG_DMA32_def VM_PAGE_SEG_DIRECTMAP_def
    VM_PAGE_SEG_HIGHMEM_def
  note defs = biosmem_set_segment_def idx Let_def
  have nz: "\<And>m ps pe s e. biosmem_map_find_avail m ps pe = Some (s, e) \<Longrightarrow> ps < pe \<Longrightarrow> e \<noteq> 0"
  proof -
    fix m ps pe s e
    assume "biosmem_map_find_avail m ps pe = Some (s, e)" and "ps < (pe :: phys_addr_t)"
    then have "ps < e" using find_avail_bounds by blast
    then show "e \<noteq> 0" by auto
  qed
  from run obtain m where adj: "biosmem_map_adjust m0 = Inr m"
    by (auto simp: biosmem_bootstrap_common_def split: sum.splits)
  from run adj obtain s0 e0 where
    f0: "biosmem_map_find_avail m (BIOSMEM_BASE lim) (VM_PAGE_DMA_LIMIT lim) = Some (s0, e0)"
    by (auto simp: biosmem_bootstrap_common_def split: option.splits)
  have e0: "e0 \<noteq> 0" using f0 l0 by (rule nz)
  show ?thesis
  proof (cases "biosmem_map_find_avail m (VM_PAGE_DMA_LIMIT lim) (VM_PAGE_DMA32_LIMIT lim)")
    case None
    with run adj f0 e0 show ?thesis
      by (auto simp: biosmem_bootstrap_common_def defs)
  next
    case (Some p1)
    obtain s1 e1 where p1: "p1 = (s1, e1)" by (cases p1)
    have e1: "e1 \<noteq> 0" using Some [unfolded p1] l1 by (rule nz)
    show ?thesis
    proof (cases "biosmem_map_find_avail m (VM_PAGE_DMA32_LIMIT lim)
                    (VM_PAGE_DIRECTMAP_LIMIT lim)")
      case None
      with run adj f0 Some p1 e0 e1 show ?thesis
        by (auto simp: biosmem_bootstrap_common_def defs)
    next
      case (Some p2)
      obtain s2 e2 where p2: "p2 = (s2, e2)" by (cases p2)
      have e2: "e2 \<noteq> 0" using Some [unfolded p2] l2 by (rule nz)
      from run adj f0 \<open>biosmem_map_find_avail m (VM_PAGE_DMA_LIMIT lim)
          (VM_PAGE_DMA32_LIMIT lim) = Some p1\<close> p1 Some p2 e0 e1 e2
      show ?thesis
        by (auto simp: biosmem_bootstrap_common_def defs split: option.splits)
    qed
  qed
qed

text \<open>
  Claim C10. \<open>biosmem_directmap_size\<close> returns the end of the DIRECTMAP segment when that
  segment is non-empty; when it is empty, the end of the DMA32 segment if that one is
  non-empty, and otherwise the end of the DMA segment. This holds for every segment table.
  After \<open>biosmem_bootstrap_common\<close> has returned (it panics unless it finds the DMA
  segment, so DMA was loaded; the thresholds of the classes increase), the DMA segment has a
  non-zero end and the value returned for the table it leaves is not zero.
\<close>

theorem directmap_size_fallback:
  "(bseg_nonempty segs VM_PAGE_SEG_DIRECTMAP \<longrightarrow>
      biosmem_directmap_size segs = bseg_end (segs VM_PAGE_SEG_DIRECTMAP)) \<and>
   (\<not> bseg_nonempty segs VM_PAGE_SEG_DIRECTMAP \<and> bseg_nonempty segs VM_PAGE_SEG_DMA32 \<longrightarrow>
      biosmem_directmap_size segs = bseg_end (segs VM_PAGE_SEG_DMA32)) \<and>
   (\<not> bseg_nonempty segs VM_PAGE_SEG_DIRECTMAP \<and> \<not> bseg_nonempty segs VM_PAGE_SEG_DMA32 \<longrightarrow>
      biosmem_directmap_size segs = bseg_end (segs VM_PAGE_SEG_DMA)) \<and>
   (BIOSMEM_BASE lim < VM_PAGE_DMA_LIMIT lim \<and>
    VM_PAGE_DMA_LIMIT lim < VM_PAGE_DMA32_LIMIT lim \<and>
    VM_PAGE_DMA32_LIMIT lim < VM_PAGE_DIRECTMAP_LIMIT lim \<and>
    biosmem_bootstrap_common lim m0 = Inr st \<longrightarrow>
      bseg_end (boot_segments st VM_PAGE_SEG_DMA) \<noteq> 0 \<and>
      biosmem_directmap_size (boot_segments st) \<noteq> 0)"
proof -
  have d: "e - s \<noteq> 0 \<longleftrightarrow> s \<noteq> e" for s e :: "64 word"
    by auto
  have fb: "(bseg_nonempty segs VM_PAGE_SEG_DIRECTMAP \<longrightarrow>
      biosmem_directmap_size segs = bseg_end (segs VM_PAGE_SEG_DIRECTMAP)) \<and>
   (\<not> bseg_nonempty segs VM_PAGE_SEG_DIRECTMAP \<and> bseg_nonempty segs VM_PAGE_SEG_DMA32 \<longrightarrow>
      biosmem_directmap_size segs = bseg_end (segs VM_PAGE_SEG_DMA32)) \<and>
   (\<not> bseg_nonempty segs VM_PAGE_SEG_DIRECTMAP \<and> \<not> bseg_nonempty segs VM_PAGE_SEG_DMA32 \<longrightarrow>
      biosmem_directmap_size segs = bseg_end (segs VM_PAGE_SEG_DMA))"
    by (simp add: biosmem_directmap_size_def bseg_nonempty_def biosmem_segment_size_def
        biosmem_segment_end_def d)
  have nz: "bseg_end (boot_segments st VM_PAGE_SEG_DMA) \<noteq> 0 \<and>
      biosmem_directmap_size (boot_segments st) \<noteq> 0"
    if h: "BIOSMEM_BASE lim < VM_PAGE_DMA_LIMIT lim \<and>
      VM_PAGE_DMA_LIMIT lim < VM_PAGE_DMA32_LIMIT lim \<and>
      VM_PAGE_DMA32_LIMIT lim < VM_PAGE_DIRECTMAP_LIMIT lim \<and>
      biosmem_bootstrap_common lim m0 = Inr st"
  proof -
    from h have h1: "BIOSMEM_BASE lim < VM_PAGE_DMA_LIMIT lim"
      and h2: "VM_PAGE_DMA_LIMIT lim < VM_PAGE_DMA32_LIMIT lim"
      and h3: "VM_PAGE_DMA32_LIMIT lim < VM_PAGE_DIRECTMAP_LIMIT lim"
      and h4: "biosmem_bootstrap_common lim m0 = Inr st"
      by simp_all
    have e: "bseg_end (boot_segments st VM_PAGE_SEG_DMA) \<noteq> 0 \<and>
       (bseg_end (boot_segments st VM_PAGE_SEG_DMA32) \<noteq> 0 \<or>
          boot_segments st VM_PAGE_SEG_DMA32 = biosmem_segment_zero) \<and>
       (bseg_end (boot_segments st VM_PAGE_SEG_DIRECTMAP) \<noteq> 0 \<or>
          boot_segments st VM_PAGE_SEG_DIRECTMAP = biosmem_segment_zero)"
      using h1 h2 h3 h4 by (rule bootstrap_ends_nonzero)
    then show ?thesis
      by (auto simp: biosmem_directmap_size_def biosmem_segment_size_def
          biosmem_segment_end_def biosmem_segment_zero_def)
  qed
  from fb nz show ?thesis by blast
qed

theorem directmap_size_fallback_witness:
  "bseg_nonempty (boot_segments boot_128t) VM_PAGE_SEG_DIRECTMAP \<and>
   biosmem_directmap_size (boot_segments boot_128t) = 0x400000000000 \<and>
   \<not> bseg_nonempty (boot_segments boot_2g) VM_PAGE_SEG_DIRECTMAP \<and>
   bseg_nonempty (boot_segments boot_2g) VM_PAGE_SEG_DMA32 \<and>
   biosmem_directmap_size (boot_segments boot_2g) = 0x80000000 \<and>
   \<not> bseg_nonempty (boot_segments boot_8m) VM_PAGE_SEG_DIRECTMAP \<and>
   \<not> bseg_nonempty (boot_segments boot_8m) VM_PAGE_SEG_DMA32 \<and>
   biosmem_directmap_size (boot_segments boot_8m) = 0x800000 \<and>
   BIOSMEM_BASE limits_lp64 < VM_PAGE_DMA_LIMIT limits_lp64 \<and>
   VM_PAGE_DMA_LIMIT limits_lp64 < VM_PAGE_DMA32_LIMIT limits_lp64 \<and>
   VM_PAGE_DMA32_LIMIT limits_lp64 < VM_PAGE_DIRECTMAP_LIMIT limits_lp64 \<and>
   biosmem_bootstrap_common limits_lp64 map_8m = Inr boot_8m \<and>
   bseg_end (boot_segments boot_8m VM_PAGE_SEG_DMA) \<noteq> 0 \<and>
   biosmem_directmap_size (boot_segments boot_8m) \<noteq> 0"
proof -
  note idx = VM_PAGE_SEG_DMA_def VM_PAGE_SEG_DMA32_def VM_PAGE_SEG_DIRECTMAP_def
    VM_PAGE_SEG_HIGHMEM_def
  note sd = biosmem_set_segment_def biosmem_segment_zero_def bseg_nonempty_def idx
  have a: "bseg_nonempty (boot_segments boot_128t) VM_PAGE_SEG_DIRECTMAP"
    "bseg_end (boot_segments boot_128t VM_PAGE_SEG_DIRECTMAP) = 0x400000000000"
    by (simp_all add: boot_128t_def sd)
  have b: "\<not> bseg_nonempty (boot_segments boot_2g) VM_PAGE_SEG_DIRECTMAP"
    "bseg_nonempty (boot_segments boot_2g) VM_PAGE_SEG_DMA32"
    "bseg_end (boot_segments boot_2g VM_PAGE_SEG_DMA32) = 0x80000000"
    by (simp_all add: boot_2g_def sd)
  have c: "\<not> bseg_nonempty (boot_segments boot_8m) VM_PAGE_SEG_DIRECTMAP"
    "\<not> bseg_nonempty (boot_segments boot_8m) VM_PAGE_SEG_DMA32"
    "bseg_end (boot_segments boot_8m VM_PAGE_SEG_DMA) = 0x800000"
    by (simp_all add: boot_8m_def sd)
  have l: "BIOSMEM_BASE limits_lp64 < VM_PAGE_DMA_LIMIT limits_lp64"
    "VM_PAGE_DMA_LIMIT limits_lp64 < VM_PAGE_DMA32_LIMIT limits_lp64"
    "VM_PAGE_DMA32_LIMIT limits_lp64 < VM_PAGE_DIRECTMAP_LIMIT limits_lp64"
    by (simp_all add: limits_lp64_def)
  have adj: "biosmem_map_adjust map_8m = Inr map_8m"
    by code_simp
  have f0: "biosmem_map_find_avail map_8m 0x100000 0x1000000 = Some (0x100000, 0x800000)"
    by code_simp
  have f1: "biosmem_map_find_avail map_8m 0x1000000 0x100000000 = None"
    by code_simp
  have run: "biosmem_bootstrap_common limits_lp64 map_8m = Inr boot_8m"
    by (simp add: biosmem_bootstrap_common_def limits_lp64_def adj f0 f1 boot_8m_def)
  from directmap_size_fallback [of "boot_segments boot_128t" limits_lp64 map_8m boot_8m]
    directmap_size_fallback [of "boot_segments boot_2g" limits_lp64 map_8m boot_8m]
    directmap_size_fallback [of "boot_segments boot_8m" limits_lp64 map_8m boot_8m]
    a b c l run
  show ?thesis by simp
qed

section \<open>Theorems: free-list accounting\<close>

lemma free_lists_total_update:
  assumes "k < VM_PAGE_NR_FREE_LISTS" and "length fls = VM_PAGE_NR_FREE_LISTS"
  shows "free_lists_total (fls[k := x]) =
           free_lists_total fls - fl_size (fls ! k) * 2 ^ k + fl_size x * 2 ^ k"
proof -
  let ?n = VM_PAGE_NR_FREE_LISTS
  let ?f = "\<lambda>i. fl_size (fls ! i) * 2 ^ i"
  let ?g = "\<lambda>i. fl_size (fls[k := x] ! i) * 2 ^ i"
  have k: "k \<in> {0..<?n}" using assms(1) by simp
  have f: "free_lists_total fls = sum ?f {0..<?n}"
    by (simp add: free_lists_total_def interv_sum_list_conv_sum_set_nat)
  have g: "free_lists_total (fls[k := x]) = sum ?g {0..<?n}"
    by (simp add: free_lists_total_def interv_sum_list_conv_sum_set_nat)
  have "sum ?f {0..<?n} = ?f k + sum ?f ({0..<?n} - {k})"
    using k by (simp add: sum.remove)
  moreover have "sum ?g {0..<?n} = ?g k + sum ?g ({0..<?n} - {k})"
    using k by (simp add: sum.remove)
  moreover have "sum ?g ({0..<?n} - {k}) = sum ?f ({0..<?n} - {k})"
    by (rule sum.cong) auto
  moreover have "?g k = fl_size x * 2 ^ k"
    using assms by simp
  ultimately show ?thesis unfolding f g by simp
qed

lemma free_list_insert_total:
  assumes "vm_page_free_list_insert seg k page = Inr seg'"
    and "k < VM_PAGE_NR_FREE_LISTS" and "length (seg_free_lists seg) = VM_PAGE_NR_FREE_LISTS"
  shows "length (seg_free_lists seg') = VM_PAGE_NR_FREE_LISTS \<and>
         free_lists_total (seg_free_lists seg') = free_lists_total (seg_free_lists seg) + 2 ^ k \<and>
         seg_nr_free_pages seg' = seg_nr_free_pages seg"
  using assms
  by (auto simp: vm_page_free_list_insert_def Let_def free_lists_total_update algebra_simps
      split: if_splits)

lemma free_list_remove_total:
  assumes "vm_page_free_list_remove seg k page = Inr seg'"
    and "k < VM_PAGE_NR_FREE_LISTS" and "length (seg_free_lists seg) = VM_PAGE_NR_FREE_LISTS"
  shows "length (seg_free_lists seg') = VM_PAGE_NR_FREE_LISTS \<and>
         free_lists_total (seg_free_lists seg') = free_lists_total (seg_free_lists seg) - 2 ^ k \<and>
         seg_nr_free_pages seg' = seg_nr_free_pages seg"
  using assms
  by (auto simp: vm_page_free_list_remove_def Let_def free_lists_total_update algebra_simps
      split: if_splits)

lemma seg_set_order_fields [simp]:
  "seg_free_lists (seg_set_order seg page order) = seg_free_lists seg"
  "seg_nr_free_pages (seg_set_order seg page order) = seg_nr_free_pages seg"
  "seg_cpu_pools (seg_set_order seg page order) = seg_cpu_pools seg"
  "seg_start (seg_set_order seg page order) = seg_start seg"
  "seg_end (seg_set_order seg page order) = seg_end seg"
  "length (seg_pages (seg_set_order seg page order)) = length (seg_pages seg)"
  by (simp_all add: seg_set_order_def)

lemma alloc_split_total:
  assumes "vm_page_seg_alloc_split seg page i order = Inr seg'"
    and "i \<le> VM_PAGE_NR_FREE_LISTS" and "order \<le> i"
    and "length (seg_free_lists seg) = VM_PAGE_NR_FREE_LISTS"
  shows "length (seg_free_lists seg') = VM_PAGE_NR_FREE_LISTS \<and>
         free_lists_total (seg_free_lists seg') + 2 ^ order =
           free_lists_total (seg_free_lists seg) + 2 ^ i \<and>
         seg_nr_free_pages seg' = seg_nr_free_pages seg"
  using assms
proof (induction seg page i order rule: vm_page_seg_alloc_split.induct)
  case (1 seg page i order)
  show ?case
  proof (cases "order < i")
    case False
    with "1.prems" show ?thesis by (simp add: vm_page_seg_alloc_split.simps)
  next
    case True
    then obtain seg1 where
      ins: "vm_page_free_list_insert seg (i - 1) (page + 2 ^ (i - 1)) = Inr seg1"
      and rec: "vm_page_seg_alloc_split (seg_set_order seg1 (page + 2 ^ (i - 1)) (word_of_nat (i - 1)))
                  page (i - 1) order = Inr seg'"
      using "1.prems"(1)
      by (subst (asm) vm_page_seg_alloc_split.simps) (auto simp: Let_def split: sum.splits)
    have k: "i - 1 < VM_PAGE_NR_FREE_LISTS" using True "1.prems"(2) by simp
    note a = free_list_insert_total [OF ins k "1.prems"(4)]
    have "length (seg_free_lists seg') = VM_PAGE_NR_FREE_LISTS \<and>
         free_lists_total (seg_free_lists seg') + 2 ^ order =
           free_lists_total (seg_free_lists (seg_set_order seg1 (page + 2 ^ (i - 1)) (word_of_nat (i - 1))))
             + 2 ^ (i - 1) \<and>
         seg_nr_free_pages seg' =
           seg_nr_free_pages (seg_set_order seg1 (page + 2 ^ (i - 1)) (word_of_nat (i - 1)))"
      using "1.IH" [OF True refl refl ins rec] True k a by simp
    moreover have "(2 :: ulong) ^ (i - 1) + 2 ^ (i - 1) = 2 ^ i"
      using True by (cases i) simp_all
    ultimately show ?thesis using a by (simp add: algebra_simps)
  qed
qed

lemma alloc_scan_range:
  "order \<le> VM_PAGE_NR_FREE_LISTS \<Longrightarrow>
     order \<le> vm_page_seg_alloc_scan seg order \<and>
     vm_page_seg_alloc_scan seg order \<le> VM_PAGE_NR_FREE_LISTS"
proof (induction seg order rule: vm_page_seg_alloc_scan.induct)
  case (1 seg i)
  show ?case
  proof (cases "i < VM_PAGE_NR_FREE_LISTS \<and> fl_size (seg_free_lists seg ! i) = 0")
    case True
    with "1.IH" have "i + 1 \<le> vm_page_seg_alloc_scan seg (i + 1) \<and>
        vm_page_seg_alloc_scan seg (i + 1) \<le> VM_PAGE_NR_FREE_LISTS" by simp
    with True show ?thesis by (subst (1 2) vm_page_seg_alloc_scan.simps) simp
  next
    case False
    with "1.prems" show ?thesis by (subst (1 2) vm_page_seg_alloc_scan.simps) auto
  qed
qed

lemma alloc_from_buddy_accounted:
  assumes "vm_page_seg_alloc_from_buddy seg order = Inr (r, seg')" and "seg_accounted seg"
  shows "seg_accounted seg'"
proof (cases "vm_page_seg_alloc_scan seg order = VM_PAGE_NR_FREE_LISTS")
  case True
  with assms show ?thesis
    by (auto simp: vm_page_seg_alloc_from_buddy_def Let_def split: if_splits)
next
  case False
  let ?i = "vm_page_seg_alloc_scan seg order"
  from assms(1) have o: "order < VM_PAGE_NR_FREE_LISTS"
    by (auto simp: vm_page_seg_alloc_from_buddy_def split: if_splits)
  with alloc_scan_range [of order seg] False
  have i: "order \<le> ?i" "?i < VM_PAGE_NR_FREE_LISTS" by simp_all
  from assms(1) False o obtain page seg1 seg2 where
    rm: "vm_page_free_list_remove seg ?i page = Inr seg1"
    and sp: "vm_page_seg_alloc_split (seg_set_order seg1 page VM_PAGE_ORDER_UNLISTED)
               page ?i order = Inr seg2"
    and res: "seg' = seg2\<lparr>seg_nr_free_pages := seg_nr_free_pages seg2 - 2 ^ order\<rparr>"
    by (auto simp: vm_page_seg_alloc_from_buddy_def Let_def
        split: if_splits list.splits sum.splits)
  from assms(2) have len: "length (seg_free_lists seg) = VM_PAGE_NR_FREE_LISTS"
    and acc: "seg_nr_free_pages seg = free_lists_total (seg_free_lists seg)"
    by (simp_all add: seg_accounted_def)
  note a = free_list_remove_total [OF rm i(2) len]
  have "length (seg_free_lists (seg_set_order seg1 page VM_PAGE_ORDER_UNLISTED)) =
      VM_PAGE_NR_FREE_LISTS" using a by simp
  note b = alloc_split_total [OF sp less_imp_le [OF i(2)] i(1) this]
  from a b acc have "free_lists_total (seg_free_lists seg2) + 2 ^ order =
      seg_nr_free_pages seg2"
    by simp
  then have "free_lists_total (seg_free_lists seg2) = seg_nr_free_pages seg2 - 2 ^ order"
    by (simp add: eq_diff_eq)
  with b res show ?thesis by (simp add: seg_accounted_def)
qed

lemma free_merge_total:
  assumes "vm_page_seg_free_merge seg pa page order = Inr (seg', page', order')"
    and "order < VM_PAGE_NR_FREE_LISTS"
    and "length (seg_free_lists seg) = VM_PAGE_NR_FREE_LISTS"
  shows "length (seg_free_lists seg') = VM_PAGE_NR_FREE_LISTS \<and>
         free_lists_total (seg_free_lists seg') + 2 ^ order' =
           free_lists_total (seg_free_lists seg) + 2 ^ order \<and>
         seg_nr_free_pages seg' = seg_nr_free_pages seg \<and>
         order \<le> order' \<and> order' < VM_PAGE_NR_FREE_LISTS"
  using assms
proof (induction seg pa page order rule: vm_page_seg_free_merge.induct)
  case (1 seg pa page order)
  let ?bpa = "pa XOR vm_page_ptoa (2 ^ order)"
  let ?buddy = "seg_page_index seg ?bpa"
  let ?pa' = "pa AND - vm_page_ptoa (2 ^ (order + 1))"
  show ?case
  proof (cases "order < VM_PAGE_NR_FREE_LISTS - 1 \<and>
      \<not> (?bpa < seg_start seg \<or> ?bpa \<ge> seg_end seg) \<and>
      \<not> ?buddy \<ge> length (seg_pages seg) \<and>
      \<not> pg_order (seg_pages seg ! ?buddy) \<noteq> word_of_nat order")
    case False
    with "1.prems" show ?thesis
      by (subst (asm) vm_page_seg_free_merge.simps) (auto simp: Let_def split: if_splits)
  next
    case True
    then obtain seg1 where
      rm: "vm_page_free_list_remove seg order ?buddy = Inr seg1"
      and rec: "vm_page_seg_free_merge (seg_set_order seg1 ?buddy VM_PAGE_ORDER_UNLISTED)
                  ?pa' (seg_page_index seg ?pa') (order + 1) = Inr (seg', page', order')"
      using "1.prems"(1)
      by (subst (asm) vm_page_seg_free_merge.simps) (auto simp: Let_def split: sum.splits)
    note a = free_list_remove_total [OF rm "1.prems"(2) "1.prems"(3)]
    have o1: "order + 1 < VM_PAGE_NR_FREE_LISTS" using True by arith
    have c1: "order < VM_PAGE_NR_FREE_LISTS - 1" using True by simp
    have c2: "\<not> (?bpa < seg_start seg \<or> seg_end seg \<le> ?bpa)" using True by simp
    have c3: "\<not> length (seg_pages seg) \<le> ?buddy" using True by simp
    have c4: "\<not> pg_order (seg_pages seg ! ?buddy) \<noteq> word_of_nat order" using True by simp
    have len1: "length (seg_free_lists (seg_set_order seg1 ?buddy VM_PAGE_ORDER_UNLISTED)) =
        VM_PAGE_NR_FREE_LISTS" using a by simp
    note b = "1.IH" [OF c1 refl c2 refl c3 c4 rm refl rec o1 len1]
    from a b show ?thesis by (simp add: algebra_simps)
  qed
qed

lemma free_to_buddy_accounted:
  assumes "vm_page_seg_free_to_buddy seg page order = Inr seg'" and "seg_accounted seg"
  shows "seg_accounted seg'"
proof -
  from assms(1) have o: "order < VM_PAGE_NR_FREE_LISTS"
    by (auto simp: vm_page_seg_free_to_buddy_def split: if_splits)
  from assms(1) obtain seg1 page1 order1 seg2 where
    mg: "vm_page_seg_free_merge seg (pg_phys_addr (seg_pages seg ! page)) page order =
           Inr (seg1, page1, order1)"
    and ins: "vm_page_free_list_insert seg1 order1 page1 = Inr seg2"
    and res: "seg' = (seg_set_order seg2 page1 (word_of_nat order1))
               \<lparr>seg_nr_free_pages := seg_nr_free_pages seg2 + 2 ^ order\<rparr>"
    by (auto simp: vm_page_seg_free_to_buddy_def split: if_splits sum.splits)
  from assms(2) have len: "length (seg_free_lists seg) = VM_PAGE_NR_FREE_LISTS"
    and acc: "seg_nr_free_pages seg = free_lists_total (seg_free_lists seg)"
    by (simp_all add: seg_accounted_def)
  note a = free_merge_total [OF mg o len]
  from a have o1: "order1 < VM_PAGE_NR_FREE_LISTS"
    and len1: "length (seg_free_lists seg1) = VM_PAGE_NR_FREE_LISTS" by simp_all
  note b = free_list_insert_total [OF ins o1 len1]
  from a b acc res show ?thesis by (simp add: seg_accounted_def)
qed

lemma seg_accounted_put_pool [simp]:
  "seg_accounted (seg_put_pool cpu cpu_pool seg) = seg_accounted seg"
  by (simp add: seg_accounted_def seg_put_pool_def)

lemma seg_accounted_pages_update [simp]:
  "seg_accounted (seg\<lparr>seg_pages := pages\<rparr>) = seg_accounted seg"
  by (simp add: seg_accounted_def)

lemma fill_loop_accounted:
  assumes "vm_page_cpu_pool_fill_loop cpu_pool seg i = Inr (n, cpu_pool', seg')"
    and "seg_accounted seg"
  shows "seg_accounted seg'"
  using assms
proof (induction cpu_pool seg i rule: vm_page_cpu_pool_fill_loop.induct)
  case (1 cpu_pool seg i)
  show ?case
  proof (cases "i < pool_transfer_size cpu_pool")
    case False
    with "1.prems" show ?thesis
      by (simp add: vm_page_cpu_pool_fill_loop.simps)
  next
    case True
    from "1.prems"(1) True obtain r seg1 where
      al: "vm_page_seg_alloc_from_buddy seg 0 = Inr (r, seg1)"
      by (subst (asm) vm_page_cpu_pool_fill_loop.simps) (auto split: sum.splits)
    note acc1 = alloc_from_buddy_accounted [OF al "1.prems"(2)]
    show ?thesis
    proof (cases r)
      case None
      with "1.prems"(1) True al acc1 show ?thesis
        by (subst (asm) vm_page_cpu_pool_fill_loop.simps) simp
    next
      case (Some page)
      with "1.prems"(1) True al obtain cpu_pool1 where
        pu: "vm_page_cpu_pool_push cpu_pool page = Inr cpu_pool1"
        and rec: "vm_page_cpu_pool_fill_loop cpu_pool1 seg1 (i + 1) = Inr (n, cpu_pool', seg')"
        by (subst (asm) vm_page_cpu_pool_fill_loop.simps) (auto split: sum.splits)
      from "1.IH" [OF True al [unfolded Some] refl refl pu rec acc1]
      show ?thesis .
    qed
  qed
qed

lemma drain_loop_accounted:
  assumes "vm_page_cpu_pool_drain_loop cpu_pool seg i = Inr (cpu_pool', seg')"
    and "seg_accounted seg"
  shows "seg_accounted seg'"
  using assms
proof (induction cpu_pool seg i rule: vm_page_cpu_pool_drain_loop.induct)
  case (1 cpu_pool seg i)
  show ?case
  proof (cases "i > 0")
    case False
    with "1.prems" show ?thesis
      by (simp add: vm_page_cpu_pool_drain_loop.simps)
  next
    case True
    from "1.prems"(1) True obtain page cpu_pool1 seg1 where
      po: "vm_page_cpu_pool_pop cpu_pool = Inr (page, cpu_pool1)"
      and fr: "vm_page_seg_free_to_buddy seg page 0 = Inr seg1"
      and rec: "vm_page_cpu_pool_drain_loop cpu_pool1 seg1 (i - 1) = Inr (cpu_pool', seg')"
      by (subst (asm) vm_page_cpu_pool_drain_loop.simps) (auto split: sum.splits)
    note acc1 = free_to_buddy_accounted [OF fr "1.prems"(2)]
    from "1.IH" [OF True po refl fr rec acc1] show ?thesis .
  qed
qed

lemma seg_alloc_finish_accounted:
  "vm_page_seg_alloc_finish seg page order type = Inr (r, seg') \<Longrightarrow>
     seg_accounted seg \<Longrightarrow> seg_accounted seg'"
  by (auto simp: vm_page_seg_alloc_finish_def split: if_splits sum.splits)

lemma seg_alloc_pop_accounted:
  "vm_page_seg_alloc_pop cpu cpu_pool seg type = Inr (r, seg') \<Longrightarrow>
     seg_accounted seg \<Longrightarrow> seg_accounted seg'"
  by (auto simp: vm_page_seg_alloc_pop_def split: sum.splits
      dest!: seg_alloc_finish_accounted)

lemma seg_alloc_accounted:
  assumes "vm_page_seg_alloc cpu seg order type = Inr (r, seg')" and "seg_accounted seg"
  shows "seg_accounted seg'"
proof (cases "order = 0")
  case True
  show ?thesis
  proof (cases "pool_nr_pages (vm_page_cpu_pool_get cpu seg) = 0")
    case False
    with assms True show ?thesis
      by (auto simp: vm_page_seg_alloc_def Let_def split: if_splits
          dest: seg_alloc_pop_accounted)
  next
    case e: True
    with assms(1) True obtain filled cpu_pool1 seg1 where
      fi: "vm_page_cpu_pool_fill (vm_page_cpu_pool_get cpu seg) seg =
             Inr (filled, cpu_pool1, seg1)"
      and r: "(if filled = 0 then Inr (None, seg_put_pool cpu cpu_pool1 seg1)
               else vm_page_seg_alloc_pop cpu cpu_pool1 seg1 type) = Inr (r, seg')"
      by (auto simp: vm_page_seg_alloc_def Let_def split: if_splits sum.splits)
    from fi have "vm_page_cpu_pool_fill_loop (vm_page_cpu_pool_get cpu seg) seg 0 =
        Inr (filled, cpu_pool1, seg1)"
      by (auto simp: vm_page_cpu_pool_fill_def split: if_splits)
    from fill_loop_accounted [OF this assms(2)] have "seg_accounted seg1" .
    with r show ?thesis
      by (auto split: if_splits dest: seg_alloc_pop_accounted)
  qed
next
  case False
  with assms(1) obtain r1 seg1 where
    al: "vm_page_seg_alloc_from_buddy seg order = Inr (r1, seg1)"
    by (auto simp: vm_page_seg_alloc_def split: if_splits sum.splits)
  note acc1 = alloc_from_buddy_accounted [OF al assms(2)]
  from assms(1) False al acc1 show ?thesis
    by (cases r1)
       (auto simp: vm_page_seg_alloc_def split: if_splits dest: seg_alloc_finish_accounted)
qed

lemma seg_free_accounted:
  assumes "vm_page_seg_free cpu seg page order = Inr seg'" and "seg_accounted seg"
  shows "seg_accounted seg'"
proof -
  from assms(1) obtain pages1 where
    st: "vm_page_set_type (seg_pages seg) page order VM_PT_FREE = Inr pages1"
    by (auto simp: vm_page_seg_free_def split: if_splits sum.splits)
  let ?seg1 = "seg\<lparr>seg_pages := pages1\<rparr>"
  have acc1: "seg_accounted ?seg1" using assms(2) by simp
  show ?thesis
  proof (cases "order = 0")
    case False
    with assms(1) st have "vm_page_seg_free_to_buddy ?seg1 page order = Inr seg'"
      by (auto simp: vm_page_seg_free_def Let_def split: if_splits)
    from free_to_buddy_accounted [OF this acc1] show ?thesis .
  next
    case True
    let ?pool = "vm_page_cpu_pool_get cpu ?seg1"
    from assms(1) st True obtain cpu_pool1 seg2 cpu_pool2 where
      dr: "(if pool_nr_pages ?pool = pool_size ?pool
            then vm_page_cpu_pool_drain ?pool ?seg1 else Inr (?pool, ?seg1)) =
             Inr (cpu_pool1, seg2)"
      and res: "seg' = seg_put_pool cpu cpu_pool2 seg2"
      by (auto simp: vm_page_seg_free_def Let_def split: if_splits sum.splits)
    have "seg_accounted seg2"
    proof (cases "pool_nr_pages ?pool = pool_size ?pool")
      case False
      with dr acc1 show ?thesis by auto
    next
      case True
      with dr have "vm_page_cpu_pool_drain_loop ?pool ?seg1 (pool_transfer_size ?pool) =
          Inr (cpu_pool1, seg2)"
        by (auto simp: vm_page_cpu_pool_drain_def split: if_splits)
      from drain_loop_accounted [OF this acc1] show ?thesis .
    qed
    with res show ?thesis by simp
  qed
qed

lemma list_all_update:
  "list_all P xs \<Longrightarrow> P x \<Longrightarrow> list_all P (xs[i := x])"
  using set_update_subset_insert [of xs i x] by (auto simp: list_all_iff)

lemma segs_size_index:
  "i < vm_page_segs_size segs \<Longrightarrow> unat i < length segs"
proof -
  assume "i < vm_page_segs_size segs"
  then have "unat i < unat (word_of_nat (length segs) :: uint32_t)"
    by (simp add: vm_page_segs_size_def word_less_nat_alt)
  also have "\<dots> \<le> length segs" by (simp add: unat_of_nat)
  finally show ?thesis .
qed

lemma alloc_pa_loop_accounted:
  assumes "vm_page_alloc_pa_loop cpu segs i order type = Inr (r, segs')"
    and "list_all seg_accounted segs"
  shows "list_all seg_accounted segs'"
  using assms
proof (induction cpu segs i order type rule: vm_page_alloc_pa_loop.induct)
  case (1 cpu segs i order type)
  show ?case
  proof (cases "i < vm_page_segs_size segs")
    case False
    with "1.prems" show ?thesis by (simp add: vm_page_alloc_pa_loop.simps)
  next
    case True
    from "1.prems"(1) True obtain r1 seg1 where
      al: "vm_page_seg_alloc cpu (segs ! unat i) order type = Inr (r1, seg1)"
      by (subst (asm) vm_page_alloc_pa_loop.simps) (auto split: sum.splits)
    have "seg_accounted (segs ! unat i)"
      using "1.prems"(2) segs_size_index [OF True] by (simp add: list_all_length)
    from seg_alloc_accounted [OF al this] have "seg_accounted seg1" .
    with "1.prems"(2) have acc1: "list_all seg_accounted (segs[unat i := seg1])"
      by (rule list_all_update)
    show ?thesis
    proof (cases r1)
      case (Some page)
      with "1.prems"(1) True al acc1 show ?thesis
        by (subst (asm) vm_page_alloc_pa_loop.simps) auto
    next
      case None
      with "1.prems"(1) True al
      have rec: "vm_page_alloc_pa_loop cpu (segs[unat i := seg1]) (i - 1) order type =
          Inr (r, segs')"
        by (subst (asm) vm_page_alloc_pa_loop.simps) simp
      from "1.IH" [OF True al [unfolded None] refl refl rec acc1] show ?thesis .
    qed
  qed
qed

lemma alloc_pa_accounted:
  assumes "vm_page_alloc_pa cpu segs order selector type = Inr (r, segs')"
    and "list_all seg_accounted segs"
  shows "list_all seg_accounted segs'"
proof -
  from assms(1) obtain i r1 where
    "vm_page_alloc_pa_loop cpu segs i order type = Inr (r1, segs')"
    by (auto simp: vm_page_alloc_pa_def split: sum.splits option.splits if_splits)
  from alloc_pa_loop_accounted [OF this assms(2)] show ?thesis .
qed

lemma free_pa_accounted:
  assumes "vm_page_free_pa cpu segs page order = Inr segs'"
    and "list_all seg_accounted segs"
  shows "list_all seg_accounted segs'"
proof -
  obtain si p where page: "page = (si, p)" by (cases page)
  from assms(1) page obtain seg1 where
    si: "si < length segs"
    and fr: "vm_page_seg_free cpu (segs ! si) p order = Inr seg1"
    and res: "segs' = segs[si := seg1]"
    by (auto simp: vm_page_free_pa_def split: if_splits sum.splits)
  have "seg_accounted (segs ! si)" using assms(2) si by (simp add: list_all_length)
  from seg_free_accounted [OF fr this] assms(2) res show ?thesis
    by (simp add: list_all_update)
qed

lemma manage_accounted:
  assumes "vm_page_manage segs page = Inr segs'"
    and "list_all seg_accounted segs"
  shows "list_all seg_accounted segs'"
proof -
  obtain si p where page: "page = (si, p)" by (cases page)
  from assms(1) page obtain pages1 seg1 where
    si: "si < length segs"
    and fr: "vm_page_seg_free_to_buddy ((segs ! si)\<lparr>seg_pages := pages1\<rparr>) p 0 = Inr seg1"
    and res: "segs' = segs[si := seg1]"
    by (auto simp: vm_page_manage_def split: if_splits sum.splits)
  have "seg_accounted ((segs ! si)\<lparr>seg_pages := pages1\<rparr>)"
    using assms(2) si by (simp add: list_all_length)
  from free_to_buddy_accounted [OF fr this] assms(2) res show ?thesis
    by (simp add: list_all_update)
qed

lemma free_lists_total_init:
  "free_lists_total (replicate VM_PAGE_NR_FREE_LISTS vm_page_free_list_init) = 0"
proof -
  have eq: "map (\<lambda>i. fl_size (replicate VM_PAGE_NR_FREE_LISTS vm_page_free_list_init ! i) * 2 ^ i)
          [0..<VM_PAGE_NR_FREE_LISTS] =
        map (\<lambda>i. 0) [0..<VM_PAGE_NR_FREE_LISTS]"
    by (rule map_cong) (simp_all add: vm_page_free_list_init_def)
  show ?thesis unfolding free_lists_total_def by (subst eq) simp
qed

lemma seg_init_accounted: "seg_accounted (vm_page_seg_init ncpus i start end')"
  by (simp add: seg_accounted_def vm_page_seg_init_def free_lists_total_init)

lemma setup_release_accounted:
  assumes "vm_page_setup_release seg page end' = Inr seg'" and "seg_accounted seg"
  shows "seg_accounted seg'"
  using assms
proof (induction seg page end' rule: vm_page_setup_release.induct)
  case (1 seg page end')
  show ?case
  proof (cases "page < end'")
    case False
    with "1.prems" show ?thesis by (simp add: vm_page_setup_release.simps)
  next
    case True
    let ?seg0 = "seg\<lparr>seg_pages := (seg_pages seg)
                   [page := (seg_pages seg ! page)\<lparr>pg_type := VM_PT_FREE\<rparr>]\<rparr>"
    from "1.prems"(1) True obtain seg1 where
      b: "\<not> length (seg_pages seg) \<le> page"
      and fr: "vm_page_seg_free_to_buddy ?seg0 page 0 = Inr seg1"
      and rec: "vm_page_setup_release seg1 (page + 1) end' = Inr seg'"
      by (subst (asm) vm_page_setup_release.simps) (auto split: if_splits sum.splits)
    have "seg_accounted ?seg0" using "1.prems"(2) by simp
    from free_to_buddy_accounted [OF fr this] have acc1: "seg_accounted seg1" .
    from "1.IH" [OF True b fr rec acc1] show ?thesis .
  qed
qed

lemma setup_segs_accounted:
  "vm_page_setup_segs ncpus boot_segs i = Inr segs \<Longrightarrow> list_all seg_accounted segs"
proof (induction boot_segs arbitrary: i segs)
  case Nil
  then show ?case by simp
next
  case (Cons boot_seg rest)
  from Cons.prems obtain seg segs1 where
    a: "vm_page_setup_seg ncpus i boot_seg = Inr seg"
    and b: "vm_page_setup_segs ncpus rest (i + 1) = Inr segs1"
    and c: "segs = seg # segs1"
    by (auto split: sum.splits)
  from a have "seg_accounted seg"
    unfolding vm_page_setup_seg_def
    by (rule setup_release_accounted) (rule seg_init_accounted)
  with Cons.IH [OF b] c show ?case by simp
qed

lemma setup_mark_table_accounted:
  "vm_page_setup_mark_table segs pas = Inr segs' \<Longrightarrow> list_all seg_accounted segs \<Longrightarrow>
     list_all seg_accounted segs'"
proof (induction pas arbitrary: segs)
  case Nil
  then show ?case by simp
next
  case (Cons pa rest)
  from Cons.prems(1) obtain si p where
    si: "si < length segs"
    and rec: "vm_page_setup_mark_table
        (segs[si := (segs ! si)\<lparr>seg_pages := (seg_pages (segs ! si))
                     [p := (seg_pages (segs ! si) ! p)\<lparr>pg_type := VM_PT_TABLE\<rparr>]\<rparr>])
        rest = Inr segs'"
    by (auto simp: not_le split: option.splits if_splits)
  have "seg_accounted (segs ! si)" using Cons.prems(2) si by (simp add: list_all_length)
  then have "list_all seg_accounted
      (segs[si := (segs ! si)\<lparr>seg_pages := (seg_pages (segs ! si))
                     [p := (seg_pages (segs ! si) ! p)\<lparr>pg_type := VM_PT_TABLE\<rparr>]\<rparr>])"
    using Cons.prems(2) by (simp add: list_all_update)
  from Cons.IH [OF rec this] show ?case .
qed

lemma setup_accounted:
  assumes "vm_page_setup ncpus boot_segs segs_size table_pas = Inr (segs, ready)"
  shows "list_all seg_accounted segs"
proof -
  from assms obtain segs1 where
    a: "vm_page_setup_segs ncpus (take segs_size boot_segs) 0 = Inr segs1"
    and b: "vm_page_setup_mark_table segs1 table_pas = Inr segs"
    by (auto simp: vm_page_setup_def split: sum.splits)
  from setup_mark_table_accounted [OF b setup_segs_accounted [OF a]] show ?thesis .
qed

text \<open>
  Claim C3. The equality \<open>nr_free_pages = sum of size(F[i]) * 2^i\<close> holds of a segment
  after \<open>vm_page_seg_init\<close>, does not depend on the per-CPU pools, and is preserved by the
  buddy allocation, the buddy release, \<open>vm_page_alloc_pa\<close>, \<open>vm_page_free_pa\<close> and
  \<open>vm_page_manage\<close>; every segment that \<open>vm_page_setup\<close> builds satisfies it.
\<close>

theorem free_list_accounting:
  "seg_accounted (vm_page_seg_init ncpus i start end') \<and>
   (\<forall>cpu cpu_pool seg. seg_accounted (seg_put_pool cpu cpu_pool seg) = seg_accounted seg) \<and>
   (\<forall>seg order r seg'. seg_accounted seg \<longrightarrow>
      vm_page_seg_alloc_from_buddy seg order = Inr (r, seg') \<longrightarrow> seg_accounted seg') \<and>
   (\<forall>seg page order seg'. seg_accounted seg \<longrightarrow>
      vm_page_seg_free_to_buddy seg page order = Inr seg' \<longrightarrow> seg_accounted seg') \<and>
   (\<forall>cpu segs order selector type r segs'. list_all seg_accounted segs \<longrightarrow>
      vm_page_alloc_pa cpu segs order selector type = Inr (r, segs') \<longrightarrow>
      list_all seg_accounted segs') \<and>
   (\<forall>cpu segs page order segs'. list_all seg_accounted segs \<longrightarrow>
      vm_page_free_pa cpu segs page order = Inr segs' \<longrightarrow> list_all seg_accounted segs') \<and>
   (\<forall>segs page segs'. list_all seg_accounted segs \<longrightarrow>
      vm_page_manage segs page = Inr segs' \<longrightarrow> list_all seg_accounted segs') \<and>
   (\<forall>boot_segs segs_size table_pas segs ready.
      vm_page_setup ncpus boot_segs segs_size table_pas = Inr (segs, ready) \<longrightarrow>
      list_all seg_accounted segs)"
proof (intro conjI allI impI)
  show "seg_accounted (vm_page_seg_init ncpus i start end')"
    by (rule seg_init_accounted)
next
  fix cpu cpu_pool seg
  show "seg_accounted (seg_put_pool cpu cpu_pool seg) = seg_accounted seg"
    by (rule seg_accounted_put_pool)
next
  fix seg order r seg'
  assume "seg_accounted seg" and "vm_page_seg_alloc_from_buddy seg order = Inr (r, seg')"
  then show "seg_accounted seg'" by (rule alloc_from_buddy_accounted [rotated])
next
  fix seg page order seg'
  assume "seg_accounted seg" and "vm_page_seg_free_to_buddy seg page order = Inr seg'"
  then show "seg_accounted seg'" by (rule free_to_buddy_accounted [rotated])
next
  fix cpu segs order selector type r segs'
  assume "list_all seg_accounted segs"
    and "vm_page_alloc_pa cpu segs order selector type = Inr (r, segs')"
  then show "list_all seg_accounted segs'" by (rule alloc_pa_accounted [rotated])
next
  fix cpu segs page order segs'
  assume "list_all seg_accounted segs" and "vm_page_free_pa cpu segs page order = Inr segs'"
  then show "list_all seg_accounted segs'" by (rule free_pa_accounted [rotated])
next
  fix segs page segs'
  assume "list_all seg_accounted segs" and "vm_page_manage segs page = Inr segs'"
  then show "list_all seg_accounted segs'" by (rule manage_accounted [rotated])
next
  fix boot_segs segs_size table_pas segs ready
  assume "vm_page_setup ncpus boot_segs segs_size table_pas = Inr (segs, ready)"
  then show "list_all seg_accounted segs" by (rule setup_accounted)
qed

theorem free_list_accounting_witness:
  "vm_page_setup 1 boot_table_4 1 [] = Inr ([seg_4_setup], True) \<and>
   list_all seg_accounted [seg_4_setup] \<and>
   seg_nr_free_pages seg_4_setup = 4 \<and>
   vm_page_alloc_pa 0 [seg_4_setup] 0 VM_PAGE_SEL_DIRECTMAP VM_PT_KERNEL =
     Inr (Some (0, 0), [seg_4_alloc]) \<and>
   list_all seg_accounted [seg_4_alloc] \<and>
   seg_nr_free_pages seg_4_alloc = 3 \<and>
   vm_page_free_pa 0 [seg_4_alloc] (0, 0) 0 = Inr [seg_4_cached] \<and>
   list_all seg_accounted [seg_4_cached] \<and>
   seg_nr_free_pages seg_4_cached = 3"
proof -
  have s: "vm_page_setup 1 boot_table_4 1 [] = Inr ([seg_4_setup], True)"
    by code_simp
  have a: "vm_page_alloc_pa 0 [seg_4_setup] 0 VM_PAGE_SEL_DIRECTMAP VM_PT_KERNEL =
      Inr (Some (0, 0), [seg_4_alloc])"
    by code_simp
  have f: "vm_page_free_pa 0 [seg_4_alloc] (0, 0) 0 = Inr [seg_4_cached]"
    by code_simp
  have n: "seg_nr_free_pages seg_4_setup = 4" "seg_nr_free_pages seg_4_alloc = 3"
    "seg_nr_free_pages seg_4_cached = 3"
    by (simp_all add: seg_4_setup_def seg_4_alloc_def seg_4_cached_def seg_4_def seg_4_at_def)
  note t = free_list_accounting [of 1 0 0 0]
  from t s have 1: "list_all seg_accounted [seg_4_setup]" by blast
  from t a 1 have 2: "list_all seg_accounted [seg_4_alloc]" by blast
  from t f 2 have 3: "list_all seg_accounted [seg_4_cached]" by blast
  from s a f n 1 2 3 show ?thesis by simp
qed

section \<open>Theorems: the segment dispatcher\<close>

lemma unat_segs_size:
  "length segs \<le> VM_PAGE_MAX_SEGS \<Longrightarrow> unat (vm_page_segs_size segs) = length segs"
  by (simp add: vm_page_segs_size_def VM_PAGE_MAX_SEGS_def unat_of_nat)

lemma alloc_pa_loop_walk:
  assumes "length segs \<le> VM_PAGE_MAX_SEGS" and "unat i = n" and "n < length segs"
  shows "vm_page_alloc_pa_loop cpu segs i order type =
           try_segments cpu segs (rev [0..<Suc n]) order type"
  using assms
proof (induction n arbitrary: segs i)
  case 0
  then have i0: "i = 0" by (simp add: unat_eq_0)
  have lt: "(0 :: uint32_t) < vm_page_segs_size segs"
    using 0 by (simp add: word_less_nat_alt unat_segs_size)
  have stop: "\<And>segs'. vm_page_alloc_pa_loop cpu segs' (- 1) order type = Inr (None, segs')"
    by (subst vm_page_alloc_pa_loop.simps) simp
  show ?case
    unfolding i0
    by (subst vm_page_alloc_pa_loop.simps)
       (simp add: lt stop split: sum.splits option.splits prod.splits)
next
  case (Suc n)
  have lt: "i < vm_page_segs_size segs"
    using Suc.prems by (simp add: word_less_nat_alt unat_segs_size)
  have ne: "i \<noteq> 0" using Suc.prems(2) by auto
  then have dec: "unat (i - 1) = n" using Suc.prems(2) by (simp add: unat_minus_one)
  have rec: "vm_page_alloc_pa_loop cpu (segs[Suc n := seg']) (i - 1) order type =
      try_segments cpu (segs[Suc n := seg']) (rev [0..<Suc n]) order type" for seg'
    using Suc.prems by (intro Suc.IH dec) simp_all
  have l: "rev [0..<Suc (Suc n)] = Suc n # rev [0..<Suc n]" by simp
  show ?case
    unfolding l
    by (subst vm_page_alloc_pa_loop.simps)
       (simp only: lt if_True Suc.prems(2) rec try_segments.simps)
qed

lemma select_alloc_seg_clamp:
  assumes "0 < length segs" and "length segs \<le> VM_PAGE_MAX_SEGS"
    and "selector_segment selector = Some seg_index"
  shows "\<exists>i. vm_page_select_alloc_seg (vm_page_segs_size segs) selector = Inr i \<and>
             unat i = min (length segs - 1) seg_index"
proof -
  have sz: "unat (vm_page_segs_size segs - 1) = length segs - 1"
  proof -
    have "vm_page_segs_size segs \<noteq> 0"
      using assms(1,2) unat_segs_size [of segs] by (auto simp: unat_eq_0 [symmetric])
    then show ?thesis using assms(2) by (simp add: unat_minus_one unat_segs_size)
  qed
  have idx: "seg_index \<le> 3"
    using assms(3)
    by (auto simp: selector_segment_def VM_PAGE_SEG_DMA_def VM_PAGE_SEG_DMA32_def
        VM_PAGE_SEG_DIRECTMAP_def VM_PAGE_SEG_HIGHMEM_def split: if_splits)
  then have u: "unat (word_of_nat seg_index :: uint32_t) = seg_index"
    by (simp add: unat_of_nat)
  have m: "unat (min (vm_page_segs_size segs - 1) (word_of_nat seg_index :: uint32_t)) =
      min (length segs - 1) seg_index"
    by (simp add: min_def word_le_nat_alt sz u)
  from assms(3) have "vm_page_select_alloc_seg (vm_page_segs_size segs) selector =
      Inr (min (vm_page_segs_size segs - 1) (word_of_nat seg_index))"
    by (auto simp: selector_segment_def vm_page_select_alloc_seg_def split: if_splits)
  with m show ?thesis by simp
qed

text \<open>
  Claim C7. With at least one segment loaded and a selector among DMA, DMA32, DIRECTMAP
  and HIGHMEM, \<open>vm_page_alloc_pa\<close> tries the segments from the selector's index, clamped
  to the highest loaded index, downwards to index 0, returns the first page it obtains,
  and when every one of them fails returns \<open>NULL\<close>, or panics if the type is PMAP.
\<close>

theorem alloc_pa_walks_down:
  assumes "0 < length segs" and "length segs \<le> VM_PAGE_MAX_SEGS"
    and "selector_segment selector = Some seg_index"
  shows "vm_page_alloc_pa cpu segs order selector type =
           alloc_pa_spec cpu segs order seg_index type"
proof -
  from select_alloc_seg_clamp [OF assms] obtain i where
    sel: "vm_page_select_alloc_seg (vm_page_segs_size segs) selector = Inr i"
    and i: "unat i = min (length segs - 1) seg_index"
    by blast
  have "min (length segs - 1) seg_index < length segs" using assms(1) by (auto simp: min_def)
  from alloc_pa_loop_walk [OF assms(2) i this]
  show ?thesis
    by (simp add: vm_page_alloc_pa_def alloc_pa_spec_def permitted_segments_def sel)
qed

theorem alloc_pa_walks_down_witness:
  "0 < length [seg_4_setup, seg_4_busy] \<and>
   length [seg_4_setup, seg_4_busy] \<le> VM_PAGE_MAX_SEGS \<and>
   selector_segment VM_PAGE_SEL_HIGHMEM = Some VM_PAGE_SEG_HIGHMEM \<and>
   permitted_segments [seg_4_setup, seg_4_busy] VM_PAGE_SEG_HIGHMEM = [1, 0] \<and>
   vm_page_seg_alloc 0 seg_4_busy 0 VM_PT_KERNEL = Inr (None, seg_4_busy) \<and>
   vm_page_alloc_pa 0 [seg_4_setup, seg_4_busy] 0 VM_PAGE_SEL_HIGHMEM VM_PT_KERNEL =
     Inr (Some (0, 0), [seg_4_alloc, seg_4_busy]) \<and>
   vm_page_alloc_pa 0 [seg_4_busy] 0 VM_PAGE_SEL_HIGHMEM VM_PT_KERNEL =
     Inr (None, [seg_4_busy]) \<and>
   vm_page_alloc_pa 0 [seg_4_busy] 0 VM_PAGE_SEL_HIGHMEM VM_PT_PMAP = Inl Panic_pmap"
proof -
  have l2: "0 < length [seg_4_setup, seg_4_busy]"
    "length [seg_4_setup, seg_4_busy] \<le> VM_PAGE_MAX_SEGS"
    and l1: "0 < length [seg_4_busy]" "length [seg_4_busy] \<le> VM_PAGE_MAX_SEGS"
    by (simp_all add: VM_PAGE_MAX_SEGS_def)
  have sel: "selector_segment VM_PAGE_SEL_HIGHMEM = Some VM_PAGE_SEG_HIGHMEM"
    by (simp add: selector_segment_def VM_PAGE_SEL_HIGHMEM_def VM_PAGE_SEL_DMA_def
        VM_PAGE_SEL_DMA32_def VM_PAGE_SEL_DIRECTMAP_def)
  have p: "permitted_segments [seg_4_setup, seg_4_busy] VM_PAGE_SEG_HIGHMEM = [1, 0]"
    by code_simp
  have b: "vm_page_seg_alloc 0 seg_4_busy 0 VM_PT_KERNEL = Inr (None, seg_4_busy)"
    by code_simp
  have s1: "alloc_pa_spec 0 [seg_4_setup, seg_4_busy] 0 VM_PAGE_SEG_HIGHMEM VM_PT_KERNEL =
      Inr (Some (0, 0), [seg_4_alloc, seg_4_busy])"
    by code_simp
  have s2: "alloc_pa_spec 0 [seg_4_busy] 0 VM_PAGE_SEG_HIGHMEM VM_PT_KERNEL =
      Inr (None, [seg_4_busy])"
    by code_simp
  have s3: "alloc_pa_spec 0 [seg_4_busy] 0 VM_PAGE_SEG_HIGHMEM VM_PT_PMAP = Inl Panic_pmap"
    by code_simp
  from alloc_pa_walks_down [OF l2 sel, of 0 0 VM_PT_KERNEL]
    alloc_pa_walks_down [OF l1 sel, of 0 0 VM_PT_KERNEL]
    alloc_pa_walks_down [OF l1 sel, of 0 0 VM_PT_PMAP]
    l2 sel p b s1 s2 s3
  show ?thesis by simp
qed

section \<open>vm_page: running the buddy allocator under its invariants\<close>

lemma order_word_unat:
  "k < VM_PAGE_NR_FREE_LISTS \<Longrightarrow> unat (word_of_nat k :: ushort) = k"
  by (simp add: VM_PAGE_NR_FREE_LISTS_def unat_of_nat)

lemma unat_unlisted: "unat VM_PAGE_ORDER_UNLISTED = 65535"
  by (simp add: VM_PAGE_ORDER_UNLISTED_def unsigned_minus_1_eq_mask mask_eq_exp_minus_1)

lemma order_word_not_unlisted:
  "k < VM_PAGE_NR_FREE_LISTS \<Longrightarrow> (word_of_nat k :: ushort) \<noteq> VM_PAGE_ORDER_UNLISTED"
proof
  assume k: "k < VM_PAGE_NR_FREE_LISTS" and e: "(word_of_nat k :: ushort) = VM_PAGE_ORDER_UNLISTED"
  have "unat (word_of_nat k :: ushort) = k" using k by (rule order_word_unat)
  with e unat_unlisted k show False by (simp add: VM_PAGE_NR_FREE_LISTS_def)
qed

lemma order_word_inj:
  "k < VM_PAGE_NR_FREE_LISTS \<Longrightarrow> j < VM_PAGE_NR_FREE_LISTS \<Longrightarrow>
     (word_of_nat k :: ushort) = word_of_nat j \<longleftrightarrow> k = j"
  by (metis order_word_unat)

lemma inv_length:
  "seg_buddy_inv seg \<Longrightarrow> length (seg_free_lists seg) = VM_PAGE_NR_FREE_LISTS"
  by (simp add: seg_buddy_inv_def seg_accounted_def)

lemma inv_free_list:
  "seg_buddy_inv seg \<Longrightarrow> k < VM_PAGE_NR_FREE_LISTS \<Longrightarrow> free_list_wf seg k"
  by (simp add: seg_buddy_inv_def list_all_iff)

lemma free_list_wf_empty:
  assumes "free_list_wf seg k"
  shows "fl_size (seg_free_lists seg ! k) = 0 \<longleftrightarrow> fl_blocks (seg_free_lists seg ! k) = []"
proof -
  from assms have "unat (fl_size (seg_free_lists seg ! k)) =
      length (fl_blocks (seg_free_lists seg ! k))"
    by (simp add: free_list_wf_def)
  then show ?thesis by (metis length_0_conv unat_eq_0)
qed

lemma free_list_wf_block:
  "free_list_wf seg k \<Longrightarrow> p \<in> set (fl_blocks (seg_free_lists seg ! k)) \<Longrightarrow> block_wf seg k p"
  by (simp add: free_list_wf_def list_all_iff)

lemma block_wf_interior:
  "block_wf seg k p \<Longrightarrow> 0 < j \<Longrightarrow> j < 2 ^ k \<Longrightarrow>
     pg_order (seg_pages seg ! (p + j)) = VM_PAGE_ORDER_UNLISTED"
  by (simp add: block_wf_def list_all_iff)

lemma alloc_scan_find:
  assumes "\<forall>k < VM_PAGE_NR_FREE_LISTS.
      fl_size (seg_free_lists seg ! k) = 0 \<longleftrightarrow> fl_blocks (seg_free_lists seg ! k) = []"
    and "order \<le> VM_PAGE_NR_FREE_LISTS"
  shows "vm_page_seg_alloc_scan seg order =
     (case smallest_nonempty seg order of None \<Rightarrow> VM_PAGE_NR_FREE_LISTS | Some i \<Rightarrow> i)"
  using assms
proof (induction seg order rule: vm_page_seg_alloc_scan.induct)
  case (1 seg i)
  show ?case
  proof (cases "i < VM_PAGE_NR_FREE_LISTS")
    case False
    with "1.prems" have "i = VM_PAGE_NR_FREE_LISTS" by simp
    then show ?thesis
      by (subst vm_page_seg_alloc_scan.simps) (simp add: smallest_nonempty_def)
  next
    case True
    then have u: "[i..<VM_PAGE_NR_FREE_LISTS] = i # [i + 1..<VM_PAGE_NR_FREE_LISTS]"
      by (simp add: upt_conv_Cons)
    from "1.prems"(1) True
    have e: "fl_size (seg_free_lists seg ! i) = 0 \<longleftrightarrow> fl_blocks (seg_free_lists seg ! i) = []"
      by blast
    show ?thesis
    proof (cases "fl_size (seg_free_lists seg ! i) = 0")
      case z: True
      have "i + 1 \<le> VM_PAGE_NR_FREE_LISTS" using True by simp
      from "1.IH" [OF True _ "1.prems"(1) this] z
      have "vm_page_seg_alloc_scan seg (i + 1) =
          (case smallest_nonempty seg (i + 1) of None \<Rightarrow> VM_PAGE_NR_FREE_LISTS | Some i \<Rightarrow> i)"
        by simp
      with True z e show ?thesis
        by (subst vm_page_seg_alloc_scan.simps) (simp add: smallest_nonempty_def u)
    next
      case nz: False
      with True e show ?thesis
        by (subst vm_page_seg_alloc_scan.simps) (simp add: smallest_nonempty_def u)
    qed
  qed
qed

lemma free_list_insert_ok:
  assumes "page < length (seg_pages seg)"
    and "pg_order (seg_pages seg ! page) = VM_PAGE_ORDER_UNLISTED"
  shows "vm_page_free_list_insert seg k page =
     Inr (seg\<lparr>seg_free_lists := (seg_free_lists seg)[k := fl_push page (seg_free_lists seg ! k)]\<rparr>)"
  using assms by (simp add: vm_page_free_list_insert_def fl_push_def Let_def)

lemma free_list_remove_ok:
  assumes "page < length (seg_pages seg)"
    and "pg_order (seg_pages seg ! page) \<noteq> VM_PAGE_ORDER_UNLISTED"
  shows "vm_page_free_list_remove seg k page =
     Inr (seg\<lparr>seg_free_lists := (seg_free_lists seg)[k := fl_pop page (seg_free_lists seg ! k)]\<rparr>)"
  using assms by (simp add: vm_page_free_list_remove_def fl_pop_def Let_def)

lemma pow2_offset_neq: "k \<noteq> j \<Longrightarrow> p + (2 :: nat) ^ k \<noteq> p + 2 ^ j"
  by simp

lemma alloc_split_post:
  assumes "order \<le> i" and "i \<le> VM_PAGE_NR_FREE_LISTS"
    and "length (seg_free_lists seg) = VM_PAGE_NR_FREE_LISTS"
    and "p + 2 ^ i \<le> length (seg_pages seg)"
    and "\<forall>k. order \<le> k \<and> k < i \<longrightarrow>
           pg_order (seg_pages seg ! (p + 2 ^ k)) = VM_PAGE_ORDER_UNLISTED"
  shows "\<exists>seg'. vm_page_seg_alloc_split seg p i order = Inr seg' \<and>
     seg_free_lists seg' =
       map (\<lambda>k. if order \<le> k \<and> k < i then fl_push (p + 2 ^ k) (seg_free_lists seg ! k)
                 else seg_free_lists seg ! k) [0..<VM_PAGE_NR_FREE_LISTS] \<and>
     length (seg_pages seg') = length (seg_pages seg) \<and>
     (\<forall>k. order \<le> k \<and> k < i \<longrightarrow>
        seg_pages seg' ! (p + 2 ^ k) = (seg_pages seg ! (p + 2 ^ k))\<lparr>pg_order := word_of_nat k\<rparr>) \<and>
     (\<forall>q. (\<forall>k. order \<le> k \<and> k < i \<longrightarrow> q \<noteq> p + 2 ^ k) \<longrightarrow>
        seg_pages seg' ! q = seg_pages seg ! q) \<and>
     seg_nr_free_pages seg' = seg_nr_free_pages seg \<and>
     seg_start seg' = seg_start seg \<and> seg_end seg' = seg_end seg \<and>
     seg_cpu_pools seg' = seg_cpu_pools seg"
  using assms
proof (induction seg p i order rule: vm_page_seg_alloc_split.induct)
  case (1 seg p i order)
  let ?F = "seg_free_lists seg" and ?P = "seg_pages seg"
  show ?case
  proof (cases "order < i")
    case False
    with "1.prems"(1) have e: "i = order" by simp
    have m: "map (\<lambda>k. ?F ! k) [0..<VM_PAGE_NR_FREE_LISTS] = ?F"
      using "1.prems"(3) by (metis map_nth)
    have n: "\<And>k. (order \<le> k \<and> k < order) = False" by auto
    show ?thesis
      unfolding e by (subst vm_page_seg_alloc_split.simps) (simp add: n m)
  next
    case True
    let ?i = "i - 1"
    let ?b = "p + 2 ^ ?i"
    have ii: "i = Suc ?i" using True by simp
    have pw: "(2 :: nat) ^ i = 2 ^ ?i + 2 ^ ?i" by (subst ii) simp
    have "(0 :: nat) < 2 ^ ?i" by simp
    with "1.prems"(4) [unfolded pw] have bn: "?b < length ?P" by linarith
    have bu: "pg_order (?P ! ?b) = VM_PAGE_ORDER_UNLISTED"
      using "1.prems"(5) True by simp
    let ?seg1 = "seg\<lparr>seg_free_lists := ?F[?i := fl_push ?b (?F ! ?i)]\<rparr>"
    have ins: "vm_page_free_list_insert seg ?i ?b = Inr ?seg1"
      using bn bu by (rule free_list_insert_ok)
    let ?seg2 = "seg_set_order ?seg1 ?b (word_of_nat ?i)"
    have p1: "order \<le> ?i" using True by simp
    have p2: "?i \<le> VM_PAGE_NR_FREE_LISTS" using "1.prems"(2) by simp
    have p3: "length (seg_free_lists ?seg2) = VM_PAGE_NR_FREE_LISTS"
      using "1.prems"(3) by (simp add: seg_set_order_def)
    have p4: "p + 2 ^ ?i \<le> length (seg_pages ?seg2)"
      using bn by (simp add: seg_set_order_def)
    have p5: "\<forall>k. order \<le> k \<and> k < ?i \<longrightarrow>
        pg_order (seg_pages ?seg2 ! (p + 2 ^ k)) = VM_PAGE_ORDER_UNLISTED"
      using "1.prems"(5) by (auto simp: seg_set_order_def)
    from "1.IH" [OF True refl refl ins p1 p2 p3 p4 p5]
    obtain seg' where
      r: "vm_page_seg_alloc_split ?seg2 p ?i order = Inr seg'"
      and f: "seg_free_lists seg' =
        map (\<lambda>k. if order \<le> k \<and> k < ?i then fl_push (p + 2 ^ k) (seg_free_lists ?seg2 ! k)
                  else seg_free_lists ?seg2 ! k) [0..<VM_PAGE_NR_FREE_LISTS]"
      and l: "length (seg_pages seg') = length (seg_pages ?seg2)"
      and h: "\<forall>k. order \<le> k \<and> k < ?i \<longrightarrow>
        seg_pages seg' ! (p + 2 ^ k) = (seg_pages ?seg2 ! (p + 2 ^ k))\<lparr>pg_order := word_of_nat k\<rparr>"
      and o: "\<forall>q. (\<forall>k. order \<le> k \<and> k < ?i \<longrightarrow> q \<noteq> p + 2 ^ k) \<longrightarrow>
        seg_pages seg' ! q = seg_pages ?seg2 ! q"
      and rest: "seg_nr_free_pages seg' = seg_nr_free_pages ?seg2"
        "seg_start seg' = seg_start ?seg2" "seg_end seg' = seg_end ?seg2"
        "seg_cpu_pools seg' = seg_cpu_pools ?seg2"
      by blast
    have run: "vm_page_seg_alloc_split seg p i order = Inr seg'"
      using True ins r by (subst vm_page_seg_alloc_split.simps) (simp add: Let_def)
    have f': "seg_free_lists seg' =
        map (\<lambda>k. if order \<le> k \<and> k < i then fl_push (p + 2 ^ k) (?F ! k) else ?F ! k)
          [0..<VM_PAGE_NR_FREE_LISTS]"
      unfolding f
    proof (rule map_cong [OF refl])
      fix k assume "k \<in> set [0..<VM_PAGE_NR_FREE_LISTS]"
      then have kn: "k < length ?F" using "1.prems"(3) by simp
      show "(if order \<le> k \<and> k < ?i then fl_push (p + 2 ^ k) (seg_free_lists ?seg2 ! k)
             else seg_free_lists ?seg2 ! k) =
            (if order \<le> k \<and> k < i then fl_push (p + 2 ^ k) (?F ! k) else ?F ! k)"
        using kn True p1 by (cases "k = ?i") (auto simp: seg_set_order_def)
    qed
    have h': "\<forall>k. order \<le> k \<and> k < i \<longrightarrow>
        seg_pages seg' ! (p + 2 ^ k) = (?P ! (p + 2 ^ k))\<lparr>pg_order := word_of_nat k\<rparr>"
    proof (intro allI impI)
      fix k assume k: "order \<le> k \<and> k < i"
      show "seg_pages seg' ! (p + 2 ^ k) = (?P ! (p + 2 ^ k))\<lparr>pg_order := word_of_nat k\<rparr>"
      proof (cases "k = ?i")
        case True
        have "\<forall>k'. order \<le> k' \<and> k' < ?i \<longrightarrow> ?b \<noteq> p + 2 ^ k'" by simp
        with o have "seg_pages seg' ! ?b = seg_pages ?seg2 ! ?b" by blast
        with True bn show ?thesis by (simp add: seg_set_order_def)
      next
        case False
        with k have "order \<le> k \<and> k < ?i" by arith
        with h have "seg_pages seg' ! (p + 2 ^ k) =
            (seg_pages ?seg2 ! (p + 2 ^ k))\<lparr>pg_order := word_of_nat k\<rparr>" by blast
        with False show ?thesis by (simp add: seg_set_order_def)
      qed
    qed
    have o': "\<forall>q. (\<forall>k. order \<le> k \<and> k < i \<longrightarrow> q \<noteq> p + 2 ^ k) \<longrightarrow>
        seg_pages seg' ! q = ?P ! q"
    proof (intro allI impI)
      fix q assume q: "\<forall>k. order \<le> k \<and> k < i \<longrightarrow> q \<noteq> p + 2 ^ k"
      have "\<forall>k. order \<le> k \<and> k < ?i \<longrightarrow> q \<noteq> p + 2 ^ k"
      proof (intro allI impI)
        fix k assume "order \<le> k \<and> k < ?i"
        then have "order \<le> k \<and> k < i" by arith
        with q show "q \<noteq> p + 2 ^ k" by blast
      qed
      with o have "seg_pages seg' ! q = seg_pages ?seg2 ! q" by blast
      moreover have "?i < i" using True by simp
      with q p1 have "q \<noteq> ?b" by blast
      ultimately show "seg_pages seg' ! q = ?P ! q" by (simp add: seg_set_order_def)
    qed
    from run f' l h' o' rest show ?thesis
      by (simp add: seg_set_order_def)
  qed
qed

lemma smallest_nonempty_Some:
  assumes "smallest_nonempty seg order = Some i"
  shows "order \<le> i \<and> i < VM_PAGE_NR_FREE_LISTS \<and> fl_blocks (seg_free_lists seg ! i) \<noteq> []"
  using assms by (auto simp: smallest_nonempty_def find_Some_iff)

lemma smallest_nonempty_None:
  "smallest_nonempty seg order = None \<longleftrightarrow>
     list_all (\<lambda>i. fl_blocks (seg_free_lists seg ! i) = []) [order..<VM_PAGE_NR_FREE_LISTS]"
  by (auto simp: smallest_nonempty_def find_None_iff list_all_iff)

lemma inv_size_empty:
  assumes "seg_buddy_inv seg"
  shows "\<forall>k < VM_PAGE_NR_FREE_LISTS.
      fl_size (seg_free_lists seg ! k) = 0 \<longleftrightarrow> fl_blocks (seg_free_lists seg ! k) = []"
  using inv_free_list [OF assms] free_list_wf_empty by blast

lemma alloc_from_buddy_none:
  assumes "seg_buddy_inv seg" and "order < VM_PAGE_NR_FREE_LISTS"
    and "smallest_nonempty seg order = None"
  shows "vm_page_seg_alloc_from_buddy seg order = Inr (None, seg)"
proof -
  from alloc_scan_find [OF inv_size_empty [OF assms(1)] less_imp_le [OF assms(2)]] assms(3)
  have "vm_page_seg_alloc_scan seg order = VM_PAGE_NR_FREE_LISTS" by simp
  with assms(2) show ?thesis by (simp add: vm_page_seg_alloc_from_buddy_def)
qed

lemma alloc_from_buddy_some:
  assumes inv: "seg_buddy_inv seg" and sm: "smallest_nonempty seg order = Some i"
  shows "alloc_from_buddy_post seg order i (vm_page_seg_alloc_from_buddy seg order)"
proof -
  let ?F = "seg_free_lists seg" and ?P = "seg_pages seg"
  from smallest_nonempty_Some [OF sm]
  have oi: "order \<le> i" and iN: "i < VM_PAGE_NR_FREE_LISTS"
    and ne: "fl_blocks (?F ! i) \<noteq> []"
    by blast+
  have oN: "order < VM_PAGE_NR_FREE_LISTS" using oi iN by simp
  have len: "length ?F = VM_PAGE_NR_FREE_LISTS" using inv by (rule inv_length)
  from alloc_scan_find [OF inv_size_empty [OF inv] less_imp_le [OF oN]] sm
  have scan: "vm_page_seg_alloc_scan seg order = i" by simp
  obtain p rest where bl: "fl_blocks (?F ! i) = p # rest"
    using ne by (cases "fl_blocks (?F ! i)") auto
  have "p \<in> set (fl_blocks (?F ! i))" using bl by simp
  with inv_free_list [OF inv iN] have bw: "block_wf seg i p" by (rule free_list_wf_block)
  then have pl: "p + 2 ^ i \<le> length ?P" and po: "pg_order (?P ! p) = word_of_nat i"
    by (simp_all add: block_wf_def)
  have "(0 :: nat) < 2 ^ i" by simp
  with pl have pn: "p < length ?P" by linarith
  have pu: "pg_order (?P ! p) \<noteq> VM_PAGE_ORDER_UNLISTED"
    using po order_word_not_unlisted [OF iN] by simp
  let ?seg1 = "seg\<lparr>seg_free_lists := ?F[i := fl_pop p (?F ! i)]\<rparr>"
  have rm: "vm_page_free_list_remove seg i p = Inr ?seg1"
    using pn pu by (rule free_list_remove_ok)
  let ?seg2 = "seg_set_order ?seg1 p VM_PAGE_ORDER_UNLISTED"
  have a3: "length (seg_free_lists ?seg2) = VM_PAGE_NR_FREE_LISTS"
    using len by (simp add: seg_set_order_def)
  have a4: "p + 2 ^ i \<le> length (seg_pages ?seg2)"
    using pl by (simp add: seg_set_order_def)
  have int: "\<And>k. order \<le> k \<and> k < i \<Longrightarrow>
      pg_order (?P ! (p + 2 ^ k)) = VM_PAGE_ORDER_UNLISTED"
  proof -
    fix k assume "order \<le> k \<and> k < i"
    then have "(2 :: nat) ^ k < 2 ^ i" by simp
    moreover have "(0 :: nat) < 2 ^ k" by simp
    ultimately show "pg_order (?P ! (p + 2 ^ k)) = VM_PAGE_ORDER_UNLISTED"
      using bw block_wf_interior by blast
  qed
  have a5: "\<forall>k. order \<le> k \<and> k < i \<longrightarrow>
      pg_order (seg_pages ?seg2 ! (p + 2 ^ k)) = VM_PAGE_ORDER_UNLISTED"
    using int by (simp add: seg_set_order_def)
  from alloc_split_post [OF oi less_imp_le [OF iN] a3 a4 a5]
  obtain seg3 where
    r: "vm_page_seg_alloc_split ?seg2 p i order = Inr seg3"
    and f: "seg_free_lists seg3 =
      map (\<lambda>k. if order \<le> k \<and> k < i then fl_push (p + 2 ^ k) (seg_free_lists ?seg2 ! k)
                else seg_free_lists ?seg2 ! k) [0..<VM_PAGE_NR_FREE_LISTS]"
    and l: "length (seg_pages seg3) = length (seg_pages ?seg2)"
    and h: "\<forall>k. order \<le> k \<and> k < i \<longrightarrow>
      seg_pages seg3 ! (p + 2 ^ k) = (seg_pages ?seg2 ! (p + 2 ^ k))\<lparr>pg_order := word_of_nat k\<rparr>"
    and o: "\<forall>q. (\<forall>k. order \<le> k \<and> k < i \<longrightarrow> q \<noteq> p + 2 ^ k) \<longrightarrow>
      seg_pages seg3 ! q = seg_pages ?seg2 ! q"
    and rest: "seg_nr_free_pages seg3 = seg_nr_free_pages ?seg2"
      "seg_start seg3 = seg_start ?seg2" "seg_end seg3 = seg_end ?seg2"
      "seg_cpu_pools seg3 = seg_cpu_pools ?seg2"
    by blast
  let ?seg4 = "seg3\<lparr>seg_nr_free_pages := seg_nr_free_pages seg3 - 2 ^ order\<rparr>"
  have run: "vm_page_seg_alloc_from_buddy seg order = Inr (Some p, ?seg4)"
    using oN iN by (simp add: vm_page_seg_alloc_from_buddy_def scan bl rm r Let_def)
  have c1: "p = hd (fl_blocks (?F ! i))" using bl by simp
  have p3: "seg_pages seg3 ! p = (?P ! p)\<lparr>pg_order := VM_PAGE_ORDER_UNLISTED\<rparr>"
  proof -
    have "\<forall>k. order \<le> k \<and> k < i \<longrightarrow> p \<noteq> p + 2 ^ k" by simp
    with o have "seg_pages seg3 ! p = seg_pages ?seg2 ! p" by blast
    with pn show ?thesis by (simp add: seg_set_order_def)
  qed
  have c2: "pg_order (seg_pages seg3 ! p) = VM_PAGE_ORDER_UNLISTED" using p3 by simp
  have c3: "seg_nr_free_pages ?seg4 = seg_nr_free_pages seg - 2 ^ order"
    using rest(1) by (simp add: seg_set_order_def)
  have c4: "seg_free_lists seg3 =
      map (\<lambda>k. if k = i then fl_pop p (?F ! k)
                else if order \<le> k \<and> k < i then fl_push (p + 2 ^ k) (?F ! k)
                else ?F ! k) [0..<VM_PAGE_NR_FREE_LISTS]"
    unfolding f
  proof (rule map_cong [OF refl])
    fix k assume "k \<in> set [0..<VM_PAGE_NR_FREE_LISTS]"
    then have kn: "k < length ?F" using len by simp
    show "(if order \<le> k \<and> k < i then fl_push (p + 2 ^ k) (seg_free_lists ?seg2 ! k)
           else seg_free_lists ?seg2 ! k) =
          (if k = i then fl_pop p (?F ! k)
           else if order \<le> k \<and> k < i then fl_push (p + 2 ^ k) (?F ! k)
           else ?F ! k)"
      using kn by (cases "k = i") (auto simp: seg_set_order_def)
  qed
  have k3: "\<And>k. order \<le> k \<and> k < i \<Longrightarrow>
      seg_pages seg3 ! (p + 2 ^ k) = (?P ! (p + 2 ^ k))\<lparr>pg_order := word_of_nat k\<rparr>"
  proof -
    fix k assume k: "order \<le> k \<and> k < i"
    with h have "seg_pages seg3 ! (p + 2 ^ k) =
        (seg_pages ?seg2 ! (p + 2 ^ k))\<lparr>pg_order := word_of_nat k\<rparr>" by blast
    then show "seg_pages seg3 ! (p + 2 ^ k) = (?P ! (p + 2 ^ k))\<lparr>pg_order := word_of_nat k\<rparr>"
      by (simp add: seg_set_order_def)
  qed
  have c5: "list_all (\<lambda>k. pg_order (seg_pages seg3 ! (p + 2 ^ k)) = word_of_nat k) [order..<i]"
    using k3 by (simp add: list_all_iff)
  have c6: "length (seg_pages seg3) = length ?P" using l by (simp add: seg_set_order_def)
  have o3: "\<And>q. q \<noteq> p \<Longrightarrow> q \<notin> set (map (\<lambda>k. p + 2 ^ k) [order..<i]) \<Longrightarrow>
      seg_pages seg3 ! q = ?P ! q"
  proof -
    fix q assume q: "q \<noteq> p" "q \<notin> set (map (\<lambda>k. p + 2 ^ k) [order..<i])"
    then have "\<forall>k. order \<le> k \<and> k < i \<longrightarrow> q \<noteq> p + 2 ^ k" by auto
    with o have "seg_pages seg3 ! q = seg_pages ?seg2 ! q" by blast
    with q(1) show "seg_pages seg3 ! q = ?P ! q" by (simp add: seg_set_order_def)
  qed
  have c7: "list_all (\<lambda>q. q = p \<or> q \<in> set (map (\<lambda>k. p + 2 ^ k) [order..<i]) \<or>
                        seg_pages seg3 ! q = ?P ! q) [0..<length ?P]"
    using o3 unfolding list_all_iff by blast
  have upd: "\<And>q. \<exists>v. seg_pages seg3 ! q = (?P ! q)\<lparr>pg_order := v\<rparr>"
  proof -
    fix q
    show "\<exists>v. seg_pages seg3 ! q = (?P ! q)\<lparr>pg_order := v\<rparr>"
    proof (cases "q = p")
      case True
      with p3 show ?thesis by blast
    next
      case np: False
      show ?thesis
      proof (cases "q \<in> set (map (\<lambda>k. p + 2 ^ k) [order..<i])")
        case True
        then obtain k where "order \<le> k \<and> k < i" "q = p + 2 ^ k" by auto
        with k3 show ?thesis by blast
      next
        case False
        with np have "seg_pages seg3 ! q = ?P ! q" by (rule o3)
        then have "seg_pages seg3 ! q = (?P ! q)\<lparr>pg_order := pg_order (?P ! q)\<rparr>" by simp
        then show ?thesis by blast
      qed
    qed
  qed
  have c8: "map pg_type (seg_pages seg3) = map pg_type ?P"
  proof (rule nth_equalityI)
    show "length (map pg_type (seg_pages seg3)) = length (map pg_type ?P)" using c6 by simp
  next
    fix q assume "q < length (map pg_type (seg_pages seg3))"
    then have q: "q < length ?P" using c6 by simp
    from upd [of q] obtain v where "seg_pages seg3 ! q = (?P ! q)\<lparr>pg_order := v\<rparr>" ..
    with q c6 show "map pg_type (seg_pages seg3) ! q = map pg_type ?P ! q" by simp
  qed
  have c9: "map pg_phys_addr (seg_pages seg3) = map pg_phys_addr ?P"
  proof (rule nth_equalityI)
    show "length (map pg_phys_addr (seg_pages seg3)) = length (map pg_phys_addr ?P)"
      using c6 by simp
  next
    fix q assume "q < length (map pg_phys_addr (seg_pages seg3))"
    then have q: "q < length ?P" using c6 by simp
    from upd [of q] obtain v where "seg_pages seg3 ! q = (?P ! q)\<lparr>pg_order := v\<rparr>" ..
    with q c6 show "map pg_phys_addr (seg_pages seg3) ! q = map pg_phys_addr ?P ! q" by simp
  qed
  have c10: "map pg_seg_index (seg_pages seg3) = map pg_seg_index ?P"
  proof (rule nth_equalityI)
    show "length (map pg_seg_index (seg_pages seg3)) = length (map pg_seg_index ?P)"
      using c6 by simp
  next
    fix q assume "q < length (map pg_seg_index (seg_pages seg3))"
    then have q: "q < length ?P" using c6 by simp
    from upd [of q] obtain v where "seg_pages seg3 ! q = (?P ! q)\<lparr>pg_order := v\<rparr>" ..
    with q c6 show "map pg_seg_index (seg_pages seg3) ! q = map pg_seg_index ?P ! q" by simp
  qed
  have c11: "seg_start seg3 = seg_start seg" "seg_end seg3 = seg_end seg"
    "seg_cpu_pools seg3 = seg_cpu_pools seg"
    using rest by (simp_all add: seg_set_order_def)
  show ?thesis
    unfolding alloc_from_buddy_post_def run
    using c1 c2 c3 c4 c5 c6 c7 c8 c9 c10 c11 by simp
qed

section \<open>vm_page: the buddy invariants are kept by an allocation\<close>

lemma pa_aligned_dvd: "pa_aligned pa k \<longleftrightarrow> 2 ^ (k + PAGE_SHIFT) dvd pa"
proof -
  have "vm_page_ptoa ((2 :: 64 word) ^ k) - 1 = mask (k + PAGE_SHIFT)"
    by (simp add: vm_page_ptoa_def push_bit_eq_mult mask_eq_exp_minus_1 power_add mult.commute)
  then have "pa_aligned pa k \<longleftrightarrow> take_bit (k + PAGE_SHIFT) pa = 0"
    by (simp add: pa_aligned_def take_bit_eq_mask)
  then show ?thesis by (simp add: take_bit_eq_0_iff)
qed

lemma pa_aligned_half:
  assumes "pa_aligned pa i" and "k < i"
  shows "pa_aligned pa k" and "pa_aligned (pa + vm_page_ptoa (2 ^ k)) k"
proof -
  from assms(1) have d: "2 ^ (i + PAGE_SHIFT) dvd pa" by (simp add: pa_aligned_dvd)
  have "(2 :: 64 word) ^ (k + PAGE_SHIFT) dvd 2 ^ (i + PAGE_SHIFT)"
    using assms(2) by (intro le_imp_power_dvd) simp
  from this d have k: "2 ^ (k + PAGE_SHIFT) dvd pa" by (rule dvd_trans)
  then show "pa_aligned pa k" by (simp add: pa_aligned_dvd)
  have "vm_page_ptoa ((2 :: 64 word) ^ k) = 2 ^ (k + PAGE_SHIFT)"
    by (simp add: vm_page_ptoa_def push_bit_eq_mult power_add mult.commute)
  with k show "pa_aligned (pa + vm_page_ptoa (2 ^ k)) k"
    by (simp add: pa_aligned_dvd)
qed

lemma pow2_between:
  assumes "0 < m" and "m < (2 :: nat) ^ k"
  shows "2 ^ k + m \<noteq> 2 ^ j"
proof (cases "j \<le> k")
  case True
  then have "(2 :: nat) ^ j \<le> 2 ^ k" by simp
  with assms show ?thesis by linarith
next
  case False
  then have "Suc k \<le> j" by simp
  then have "(2 :: nat) ^ Suc k \<le> 2 ^ j" by (rule power_increasing) simp
  then have "(2 :: nat) ^ k + 2 ^ k \<le> 2 ^ j" by simp
  with assms show ?thesis by linarith
qed

lemma post_fields:
  assumes "alloc_from_buddy_post seg order i (Inr (Some p, seg'))"
  shows "pg_order (seg_pages seg' ! p) = VM_PAGE_ORDER_UNLISTED"
    and "seg_free_lists seg' =
          map (\<lambda>k. if k = i then fl_pop p (seg_free_lists seg ! k)
                    else if order \<le> k \<and> k < i then fl_push (p + 2 ^ k) (seg_free_lists seg ! k)
                    else seg_free_lists seg ! k)
            [0..<VM_PAGE_NR_FREE_LISTS]"
    and "\<And>k. order \<le> k \<Longrightarrow> k < i \<Longrightarrow>
          pg_order (seg_pages seg' ! (p + 2 ^ k)) = word_of_nat k"
    and "length (seg_pages seg') = length (seg_pages seg)"
    and "\<And>q. q < length (seg_pages seg) \<Longrightarrow> q \<noteq> p \<Longrightarrow>
          (\<And>k. order \<le> k \<Longrightarrow> k < i \<Longrightarrow> q \<noteq> p + 2 ^ k) \<Longrightarrow>
          seg_pages seg' ! q = seg_pages seg ! q"
    and "\<And>q. q < length (seg_pages seg) \<Longrightarrow>
          pg_type (seg_pages seg' ! q) = pg_type (seg_pages seg ! q)"
    and "\<And>q. q < length (seg_pages seg) \<Longrightarrow>
          pg_phys_addr (seg_pages seg' ! q) = pg_phys_addr (seg_pages seg ! q)"
    and "seg_start seg' = seg_start seg" and "seg_end seg' = seg_end seg"
    and "seg_cpu_pools seg' = seg_cpu_pools seg"
    and "seg_nr_free_pages seg' = seg_nr_free_pages seg - 2 ^ order"
proof -
  note a = assms [unfolded alloc_from_buddy_post_def, simplified]
  from a show "pg_order (seg_pages seg' ! p) = VM_PAGE_ORDER_UNLISTED" by blast
  from a show "seg_free_lists seg' =
          map (\<lambda>k. if k = i then fl_pop p (seg_free_lists seg ! k)
                    else if order \<le> k \<and> k < i then fl_push (p + 2 ^ k) (seg_free_lists seg ! k)
                    else seg_free_lists seg ! k)
            [0..<VM_PAGE_NR_FREE_LISTS]" by blast
  from a show len: "length (seg_pages seg') = length (seg_pages seg)" by blast
  from a show "seg_start seg' = seg_start seg" by blast
  from a show "seg_end seg' = seg_end seg" by blast
  from a show "seg_cpu_pools seg' = seg_cpu_pools seg" by blast
  from a show "seg_nr_free_pages seg' = seg_nr_free_pages seg - 2 ^ order" by blast
  from a have h: "list_all (\<lambda>k. pg_order (seg_pages seg' ! (p + 2 ^ k)) = word_of_nat k)
      [order..<i]" by blast
  show "\<And>k. order \<le> k \<Longrightarrow> k < i \<Longrightarrow>
          pg_order (seg_pages seg' ! (p + 2 ^ k)) = word_of_nat k"
    using h by (simp add: list_all_iff)
  from a have o: "list_all (\<lambda>q. q = p \<or> q \<in> (\<lambda>k. p + 2 ^ k) ` {order..<i} \<or>
      seg_pages seg' ! q = seg_pages seg ! q) [0..<length (seg_pages seg)]" by blast
  show "\<And>q. q < length (seg_pages seg) \<Longrightarrow> q \<noteq> p \<Longrightarrow>
          (\<And>k. order \<le> k \<Longrightarrow> k < i \<Longrightarrow> q \<noteq> p + 2 ^ k) \<Longrightarrow>
          seg_pages seg' ! q = seg_pages seg ! q"
    using o unfolding list_all_iff by fastforce
  from a have t: "map pg_type (seg_pages seg') = map pg_type (seg_pages seg)" by blast
  show "pg_type (seg_pages seg' ! q) = pg_type (seg_pages seg ! q)"
    if "q < length (seg_pages seg)" for q
    using that len arg_cong [OF t, of "\<lambda>l. l ! q"] by simp
  from a have t: "map pg_phys_addr (seg_pages seg') = map pg_phys_addr (seg_pages seg)" by blast
  show "pg_phys_addr (seg_pages seg' ! q) = pg_phys_addr (seg_pages seg ! q)"
    if "q < length (seg_pages seg)" for q
    using that len arg_cong [OF t, of "\<lambda>l. l ! q"] by simp
qed

lemma block_untouched:
  assumes bp: "block_wf seg i p" and bq: "block_wf seg k q" and ne: "q \<noteq> p"
    and iN: "i < VM_PAGE_NR_FREE_LISTS" and kN: "k < VM_PAGE_NR_FREE_LISTS"
    and m: "m < 2 ^ k"
  shows "q + m \<noteq> p" and "\<And>j. j < i \<Longrightarrow> q + m \<noteq> p + 2 ^ j"
proof -
  have op: "pg_order (seg_pages seg ! p) \<noteq> VM_PAGE_ORDER_UNLISTED"
    using bp order_word_not_unlisted [OF iN] by (simp add: block_wf_def)
  have oq: "pg_order (seg_pages seg ! q) \<noteq> VM_PAGE_ORDER_UNLISTED"
    using bq order_word_not_unlisted [OF kN] by (simp add: block_wf_def)
  show "q + m \<noteq> p"
  proof
    assume e: "q + m = p"
    with ne have "0 < m" by (cases m) auto
    from block_wf_interior [OF bq this m] e op show False by simp
  qed
  fix j assume j: "j < i"
  show "q + m \<noteq> p + 2 ^ j"
  proof
    assume e: "q + m = p + 2 ^ j"
    have j2: "(2 :: nat) ^ j < 2 ^ i" using j by simp
    have j0: "(0 :: nat) < 2 ^ j" by simp
    show False
    proof (cases "q < p")
      case True
      then have "0 < p - q" and "p - q < 2 ^ k" using e m j0 by linarith+
      from block_wf_interior [OF bq this] True op show False by simp
    next
      case False
      with ne have pq: "p < q" by simp
      then have "0 < q - p" and "q - p < 2 ^ i" using e j2 by linarith+
      from block_wf_interior [OF bp this] pq oq show False by simp
    qed
  qed
qed

lemma block_wf_kept:
  assumes post: "alloc_from_buddy_post seg order i (Inr (Some p, seg'))"
    and bp: "block_wf seg i p" and bq: "block_wf seg k q" and ne: "q \<noteq> p"
    and iN: "i < VM_PAGE_NR_FREE_LISTS" and kN: "k < VM_PAGE_NR_FREE_LISTS"
  shows "block_wf seg' k q"
proof -
  from bq have ql: "q + 2 ^ k \<le> length (seg_pages seg)" by (simp add: block_wf_def)
  have same: "seg_pages seg' ! (q + m) = seg_pages seg ! (q + m)" if m: "m < 2 ^ k" for m
  proof (rule post_fields(5) [OF post])
    show "q + m < length (seg_pages seg)" using ql m by linarith
    show "q + m \<noteq> p" using bp bq ne iN kN m by (rule block_untouched(1))
    show "\<And>j. order \<le> j \<Longrightarrow> j < i \<Longrightarrow> q + m \<noteq> p + 2 ^ j"
      using block_untouched(2) [OF bp bq ne iN kN m] by blast
  qed
  have "(0 :: nat) < 2 ^ k" by simp
  from same [OF this] have s0: "seg_pages seg' ! q = seg_pages seg ! q" by simp
  from bq show ?thesis
    unfolding block_wf_def list_all_iff
    using same s0 post_fields(4) [OF post] by simp
qed

lemma layout_phys_addr:
  "seg_layout_wf seg \<Longrightarrow> q < length (seg_pages seg) \<Longrightarrow>
     pg_phys_addr (seg_pages seg ! q) = seg_start seg + vm_page_ptoa (word_of_nat q)"
  by (simp add: seg_layout_wf_def list_all_iff)

lemma block_wf_half:
  assumes post: "alloc_from_buddy_post seg order i (Inr (Some p, seg'))"
    and bp: "block_wf seg i p" and lay: "seg_layout_wf seg"
    and ok: "order \<le> k" and ki: "k < i"
  shows "block_wf seg' k (p + 2 ^ k)"
proof -
  let ?P = "seg_pages seg" and ?P' = "seg_pages seg'"
  from bp have pl: "p + 2 ^ i \<le> length ?P"
    and al: "pa_aligned (pg_phys_addr (?P ! p)) i"
    and ty: "\<And>j. j < 2 ^ i \<Longrightarrow> pg_type (?P ! (p + j)) = VM_PT_FREE"
    by (simp_all add: block_wf_def list_all_iff)
  have "Suc k \<le> i" using ki by simp
  then have "(2 :: nat) ^ Suc k \<le> 2 ^ i" by (rule power_increasing) simp
  then have kk: "(2 :: nat) ^ k + 2 ^ k \<le> 2 ^ i" by simp
  have k0: "(0 :: nat) < 2 ^ k" by simp
  note len = post_fields(4) [OF post]
  have r: "p + 2 ^ k + 2 ^ k \<le> length ?P'" using pl kk len by linarith
  have o: "pg_order (?P' ! (p + 2 ^ k)) = word_of_nat k"
    using ok ki by (rule post_fields(3) [OF post])
  have int: "pg_order (?P' ! (p + 2 ^ k + m)) = VM_PAGE_ORDER_UNLISTED"
    if m: "0 < m" "m < 2 ^ k" for m
  proof -
    have "?P' ! (p + 2 ^ k + m) = ?P ! (p + 2 ^ k + m)"
    proof (rule post_fields(5) [OF post])
      show "p + 2 ^ k + m < length ?P" using pl kk m by linarith
      show "p + 2 ^ k + m \<noteq> p" using k0 by linarith
      show "\<And>j. order \<le> j \<Longrightarrow> j < i \<Longrightarrow> p + 2 ^ k + m \<noteq> p + 2 ^ j"
        using pow2_between [OF m] by (simp add: add.assoc)
    qed
    moreover have "0 < 2 ^ k + m" and "2 ^ k + m < 2 ^ i" using m kk by linarith+
    from block_wf_interior [OF bp this]
    have "pg_order (?P ! (p + (2 ^ k + m))) = VM_PAGE_ORDER_UNLISTED" .
    ultimately show ?thesis by (simp add: add.assoc)
  qed
  have ty': "pg_type (?P' ! (p + 2 ^ k + m)) = VM_PT_FREE" if m: "m < 2 ^ k" for m
  proof -
    have l: "p + 2 ^ k + m < length ?P" using pl kk m by linarith
    have "2 ^ k + m < (2 :: nat) ^ i" using m kk by linarith
    from post_fields(6) [OF post l] ty [OF this] show ?thesis by (simp add: add.assoc)
  qed
  have pa: "pa_aligned (pg_phys_addr (?P' ! (p + 2 ^ k))) k"
  proof -
    have l: "p + 2 ^ k < length ?P" and l0: "p < length ?P" using pl kk k0 by linarith+
    have "pg_phys_addr (?P' ! (p + 2 ^ k)) = pg_phys_addr (?P ! (p + 2 ^ k))"
      using l by (rule post_fields(7) [OF post])
    also have "\<dots> = seg_start seg + vm_page_ptoa (word_of_nat (p + 2 ^ k))"
      using lay l by (rule layout_phys_addr)
    also have "\<dots> = pg_phys_addr (?P ! p) + vm_page_ptoa (2 ^ k)"
      by (simp add: layout_phys_addr [OF lay l0] vm_page_ptoa_def push_bit_add)
    finally show ?thesis using pa_aligned_half(2) [OF al ki] by simp
  qed
  show ?thesis
    unfolding block_wf_def list_all_iff
    using r o int ty' [of 0] ty' pa by simp
qed

lemma distinct_bounded_length:
  assumes "distinct xs" and "\<forall>x \<in> set xs. x < (n :: nat)"
  shows "length xs \<le> n"
proof -
  have "card (set xs) \<le> card {..<n}" by (rule card_mono) (use assms in auto)
  with assms(1) show ?thesis by (simp add: distinct_card)
qed

lemma layout_length_bound: "seg_layout_wf seg \<Longrightarrow> length (seg_pages seg) < 2 ^ 64"
  using unsigned_less [of "vm_page_atop (seg_end seg - seg_start seg)", where ?'a = nat]
  by (simp add: seg_layout_wf_def)

lemma post_list_nth:
  assumes post: "alloc_from_buddy_post seg order i (Inr (Some p, seg'))"
    and kN: "k < VM_PAGE_NR_FREE_LISTS"
  shows "seg_free_lists seg' ! k =
     (if k = i then fl_pop p (seg_free_lists seg ! k)
      else if order \<le> k \<and> k < i then fl_push (p + 2 ^ k) (seg_free_lists seg ! k)
      else seg_free_lists seg ! k)"
  using kN by (simp add: post_fields(2) [OF post])

lemma free_list_wf_kept:
  assumes post: "alloc_from_buddy_post seg order i (Inr (Some p, seg'))"
    and inv: "seg_buddy_inv seg"
    and pi: "p \<in> set (fl_blocks (seg_free_lists seg ! i))"
    and iN: "i < VM_PAGE_NR_FREE_LISTS" and kN: "k < VM_PAGE_NR_FREE_LISTS"
  shows "free_list_wf seg' k"
proof -
  let ?B = "fl_blocks (seg_free_lists seg ! k)"
  let ?s = "fl_size (seg_free_lists seg ! k)"
  from inv have lay: "seg_layout_wf seg" by (simp add: seg_buddy_inv_def)
  from inv_free_list [OF inv iN] pi have bp: "block_wf seg i p" by (rule free_list_wf_block)
  from inv_free_list [OF inv kN] have sz: "unat ?s = length ?B" and di: "distinct ?B"
    and bl: "\<And>q. q \<in> set ?B \<Longrightarrow> block_wf seg k q"
    by (simp_all add: free_list_wf_def list_all_iff)
  have np: "p \<notin> set ?B" if "k \<noteq> i"
  proof
    assume "p \<in> set ?B"
    then have "pg_order (seg_pages seg ! p) = word_of_nat k" using bl by (simp add: block_wf_def)
    moreover have "pg_order (seg_pages seg ! p) = word_of_nat i" using bp by (simp add: block_wf_def)
    ultimately show False using order_word_inj [OF kN iN] that by simp
  qed
  have kept: "block_wf seg' k q" if "q \<in> set ?B" "q \<noteq> p" for q
    using post bp bl [OF that(1)] that(2) iN kN by (rule block_wf_kept)
  note nth = post_list_nth [OF post kN]
  show ?thesis
  proof (cases "k = i")
    case True
    with pi have pin: "p \<in> set ?B" by simp
    then have "0 < length ?B" by (cases ?B) auto
    with sz have "?s \<noteq> 0" by auto
    then have "unat (?s - 1) = unat ?s - 1" by (rule unat_minus_one)
    with sz pin have s': "unat (?s - 1) = length (remove1 p ?B)" by (simp add: length_remove1)
    have d': "distinct (remove1 p ?B)" using di by simp
    have "block_wf seg' k q" if "q \<in> set (remove1 p ?B)" for q
      using that di kept by (simp add: set_remove1_eq)
    moreover have "seg_free_lists seg' ! k = fl_pop p (seg_free_lists seg ! k)"
      using nth True by simp
    ultimately show ?thesis
      using s' d' by (simp add: free_list_wf_def list_all_iff fl_pop_def)
  next
    case ne: False
    show ?thesis
    proof (cases "order \<le> k \<and> k < i")
      case True
      then have ok: "order \<le> k" and ki: "k < i" by simp_all
      have nb: "block_wf seg' k (p + 2 ^ k)" using post bp lay ok ki by (rule block_wf_half)
      have "(0 :: nat) < 2 ^ k" and "(2 :: nat) ^ k < 2 ^ i" using ki by simp_all
      from block_wf_interior [OF bp this]
      have un: "pg_order (seg_pages seg ! (p + 2 ^ k)) = VM_PAGE_ORDER_UNLISTED" .
      have nin: "p + 2 ^ k \<notin> set ?B"
      proof
        assume "p + 2 ^ k \<in> set ?B"
        then have "pg_order (seg_pages seg ! (p + 2 ^ k)) = word_of_nat k"
          using bl by (simp add: block_wf_def)
        with un order_word_not_unlisted [OF kN] show False by simp
      qed
      with di have d': "distinct ((p + 2 ^ k) # ?B)" by simp
      have "\<forall>x \<in> set ((p + 2 ^ k) # ?B). x < length (seg_pages seg')"
      proof
        fix x assume "x \<in> set ((p + 2 ^ k) # ?B)"
        then have "block_wf seg' k x" using nb kept np [OF ne] by auto
        then have "x + 2 ^ k \<le> length (seg_pages seg')" by (simp add: block_wf_def)
        moreover have "(0 :: nat) < 2 ^ k" by simp
        ultimately show "x < length (seg_pages seg')" by linarith
      qed
      with d' have "length ((p + 2 ^ k) # ?B) \<le> length (seg_pages seg')"
        by (rule distinct_bounded_length)
      with layout_length_bound [OF lay] post_fields(4) [OF post]
      have "unat ?s + unat (1 :: 64 word) < 2 ^ LENGTH(64)" using sz by simp
      then have "unat (?s + 1) = unat ?s + unat (1 :: 64 word)" by (simp only: unat_add_lem)
      with sz have s': "unat (?s + 1) = length ((p + 2 ^ k) # ?B)" by simp
      have "block_wf seg' k q" if "q \<in> set ((p + 2 ^ k) # ?B)" for q
        using that nb kept np [OF ne] by auto
      moreover have "seg_free_lists seg' ! k = fl_push (p + 2 ^ k) (seg_free_lists seg ! k)"
        using nth ne True by simp
      ultimately show ?thesis
        using s' d' by (simp add: free_list_wf_def list_all_iff fl_push_def)
    next
      case False
      have "block_wf seg' k q" if "q \<in> set ?B" for q
        using that kept np [OF ne] by auto
      moreover have "seg_free_lists seg' ! k = seg_free_lists seg ! k"
        using nth ne False by simp
      ultimately show ?thesis
        using sz di by (simp add: free_list_wf_def list_all_iff)
    qed
  qed
qed

lemma post_mem_kept:
  assumes post: "alloc_from_buddy_post seg order i (Inr (Some p, seg'))"
    and kN: "k < VM_PAGE_NR_FREE_LISTS"
    and q: "q \<in> set (fl_blocks (seg_free_lists seg ! k))" and ne: "q \<noteq> p"
  shows "q \<in> set (fl_blocks (seg_free_lists seg' ! k))"
  using q ne by (auto simp: post_list_nth [OF post kN] fl_pop_def fl_push_def)

lemma listed_wf_kept:
  assumes post: "alloc_from_buddy_post seg order i (Inr (Some p, seg'))"
    and li: "listed_wf seg" and oi: "order \<le> i" and iN: "i < VM_PAGE_NR_FREE_LISTS"
  shows "listed_wf seg'"
  unfolding listed_wf_def list_all_iff list_ex_iff
proof
  fix q assume "q \<in> set [0..<length (seg_pages seg')]"
  then have ql: "q < length (seg_pages seg)" by (simp add: post_fields(4) [OF post])
  let ?goal = "pg_order (seg_pages seg' ! q) = VM_PAGE_ORDER_UNLISTED \<or>
      (\<exists>k \<in> set [0..<VM_PAGE_NR_FREE_LISTS].
         pg_order (seg_pages seg' ! q) = word_of_nat k \<and>
         q \<in> set (fl_blocks (seg_free_lists seg' ! k)))"
  show ?goal
  proof (cases "q = p")
    case True
    then show ?thesis by (simp add: post_fields(1) [OF post])
  next
    case np: False
    show ?thesis
    proof (cases "\<exists>j. order \<le> j \<and> j < i \<and> q = p + 2 ^ j")
      case True
      then obtain j where j: "order \<le> j" "j < i" "q = p + 2 ^ j" by blast
      then have jN: "j < VM_PAGE_NR_FREE_LISTS" using iN by simp
      have "pg_order (seg_pages seg' ! q) = word_of_nat j"
        using j post_fields(3) [OF post] by simp
      moreover have "q \<in> set (fl_blocks (seg_free_lists seg' ! j))"
        using j by (simp add: post_list_nth [OF post jN] fl_push_def)
      ultimately show ?thesis using jN by auto
    next
      case False
      then have "\<And>k. order \<le> k \<Longrightarrow> k < i \<Longrightarrow> q \<noteq> p + 2 ^ k" by blast
      with ql np have same: "seg_pages seg' ! q = seg_pages seg ! q"
        by (rule post_fields(5) [OF post])
      from li ql have "pg_order (seg_pages seg ! q) = VM_PAGE_ORDER_UNLISTED \<or>
          (\<exists>k \<in> set [0..<VM_PAGE_NR_FREE_LISTS].
             pg_order (seg_pages seg ! q) = word_of_nat k \<and>
             q \<in> set (fl_blocks (seg_free_lists seg ! k)))"
        by (simp add: listed_wf_def list_all_iff list_ex_iff)
      then show ?thesis
      proof
        assume "pg_order (seg_pages seg ! q) = VM_PAGE_ORDER_UNLISTED"
        with same show ?thesis by simp
      next
        assume "\<exists>k \<in> set [0..<VM_PAGE_NR_FREE_LISTS].
             pg_order (seg_pages seg ! q) = word_of_nat k \<and>
             q \<in> set (fl_blocks (seg_free_lists seg ! k))"
        then obtain k where k: "k < VM_PAGE_NR_FREE_LISTS"
          "pg_order (seg_pages seg ! q) = word_of_nat k"
          "q \<in> set (fl_blocks (seg_free_lists seg ! k))" by auto
        from post_mem_kept [OF post k(1) k(3) np] k(1,2) same show ?thesis by auto
      qed
    qed
  qed
qed

lemma layout_wf_kept:
  assumes post: "alloc_from_buddy_post seg order i (Inr (Some p, seg'))"
    and lay: "seg_layout_wf seg"
  shows "seg_layout_wf seg'"
  using lay post_fields(7) [OF post]
  by (simp add: seg_layout_wf_def list_all_iff post_fields(4,8,9) [OF post])

lemma alloc_from_buddy_inv:
  assumes inv: "seg_buddy_inv seg" and oN: "order < VM_PAGE_NR_FREE_LISTS"
    and run: "vm_page_seg_alloc_from_buddy seg order = Inr (r, seg')"
  shows "seg_buddy_inv seg'"
    and "\<And>p. r = Some p \<Longrightarrow> p < length (seg_pages seg') \<and>
           pg_type (seg_pages seg' ! p) = VM_PT_FREE \<and>
           pg_order (seg_pages seg' ! p) = VM_PAGE_ORDER_UNLISTED"
    and "seg_cpu_pools seg' = seg_cpu_pools seg"
proof -
  have "seg_buddy_inv seg' \<and>
      (\<forall>p. r = Some p \<longrightarrow> p < length (seg_pages seg') \<and>
           pg_type (seg_pages seg' ! p) = VM_PT_FREE \<and>
           pg_order (seg_pages seg' ! p) = VM_PAGE_ORDER_UNLISTED) \<and>
      seg_cpu_pools seg' = seg_cpu_pools seg"
  proof (cases "smallest_nonempty seg order")
    case None
    from alloc_from_buddy_none [OF inv oN None] run inv show ?thesis by simp
  next
    case (Some i)
    from smallest_nonempty_Some [OF Some]
    have oi: "order \<le> i" and iN: "i < VM_PAGE_NR_FREE_LISTS"
      and ne: "fl_blocks (seg_free_lists seg ! i) \<noteq> []" by blast+
    from alloc_from_buddy_some [OF inv Some] run
    have post0: "alloc_from_buddy_post seg order i (Inr (r, seg'))" by simp
    then obtain p where r: "r = Some p"
      by (cases r) (simp_all add: alloc_from_buddy_post_def)
    with post0 have post: "alloc_from_buddy_post seg order i (Inr (Some p, seg'))" by simp
    then have "p = hd (fl_blocks (seg_free_lists seg ! i))"
      by (simp add: alloc_from_buddy_post_def)
    with ne have pi: "p \<in> set (fl_blocks (seg_free_lists seg ! i))" by simp
    from inv_free_list [OF inv iN] pi have bp: "block_wf seg i p" by (rule free_list_wf_block)
    then have pl: "p + 2 ^ i \<le> length (seg_pages seg)"
      and tys: "\<And>j. j < 2 ^ i \<Longrightarrow> pg_type (seg_pages seg ! (p + j)) = VM_PT_FREE"
      by (simp_all add: block_wf_def list_all_iff)
    have i0: "(0 :: nat) < 2 ^ i" by simp
    from tys [OF i0] have ty: "pg_type (seg_pages seg ! p) = VM_PT_FREE" by simp
    from pl i0 have pn: "p < length (seg_pages seg)" by linarith
    from inv have acc: "seg_accounted seg" and lay: "seg_layout_wf seg"
      and li: "listed_wf seg" by (simp_all add: seg_buddy_inv_def)
    have 1: "seg_accounted seg'" using run acc by (rule alloc_from_buddy_accounted)
    have 2: "seg_layout_wf seg'" using post lay by (rule layout_wf_kept)
    have 3: "list_all (free_list_wf seg') [0..<VM_PAGE_NR_FREE_LISTS]"
      unfolding list_all_iff using free_list_wf_kept [OF post inv pi iN] by simp
    have 4: "listed_wf seg'" using post li oi iN by (rule listed_wf_kept)
    from 1 2 3 4 have "seg_buddy_inv seg'" by (simp add: seg_buddy_inv_def)
    moreover have "p < length (seg_pages seg')" using pn by (simp add: post_fields(4) [OF post])
    moreover have "pg_type (seg_pages seg' ! p) = VM_PT_FREE"
      using ty post_fields(6) [OF post pn] by simp
    ultimately show ?thesis
      using r post_fields(1) [OF post] post_fields(10) [OF post] by simp
  qed
  then show "seg_buddy_inv seg'"
    and "\<And>p. r = Some p \<Longrightarrow> p < length (seg_pages seg') \<and>
           pg_type (seg_pages seg' ! p) = VM_PT_FREE \<and>
           pg_order (seg_pages seg' ! p) = VM_PAGE_ORDER_UNLISTED"
    and "seg_cpu_pools seg' = seg_cpu_pools seg"
    by blast+
qed


text \<open>
  Claim C2. For a segment whose state satisfies the buddy invariants and an order
  \<open>o < K = 11\<close>, \<open>vm_page_seg_alloc_from_buddy\<close> returns \<open>NULL\<close> exactly when every free list
  \<open>F[i]\<close> with \<open>o \<le> i < K\<close> is empty, and then leaves the segment as it is. Otherwise,
  with \<open>i\<close> the smallest such index of a non-empty list, it returns the head \<open>p\<close> of
  \<open>F[i]\<close>, removed from that list and with order UNLISTED; for every \<open>k\<close> from \<open>o\<close> up to
  \<open>i - 1\<close> the upper half \<open>p + 2^k\<close> has been inserted into \<open>F[k]\<close> with order \<open>k\<close>; no other
  list and no other field of a descriptor has changed; and \<open>nr_free_pages\<close> has dropped by
  \<open>2^o\<close>. The call does not fail, and the segment it leaves satisfies the buddy invariants
  again.
\<close>

theorem alloc_from_buddy_correct:
  assumes "seg_buddy_inv seg" and "order < VM_PAGE_NR_FREE_LISTS"
  shows "((\<exists>seg'. vm_page_seg_alloc_from_buddy seg order = Inr (None, seg')) \<longleftrightarrow>
            list_all (\<lambda>i. fl_blocks (seg_free_lists seg ! i) = [])
              [order..<VM_PAGE_NR_FREE_LISTS]) \<and>
         (case smallest_nonempty seg order of
            None \<Rightarrow> vm_page_seg_alloc_from_buddy seg order = Inr (None, seg)
          | Some i \<Rightarrow>
              alloc_from_buddy_post seg order i (vm_page_seg_alloc_from_buddy seg order)) \<and>
         (\<forall>r seg'. vm_page_seg_alloc_from_buddy seg order = Inr (r, seg') \<longrightarrow>
            seg_buddy_inv seg')"
proof -
  have kept: "\<forall>r seg'. vm_page_seg_alloc_from_buddy seg order = Inr (r, seg') \<longrightarrow>
      seg_buddy_inv seg'"
    using alloc_from_buddy_inv(1) [OF assms] by blast
  show ?thesis
  proof (cases "smallest_nonempty seg order")
    case None
    from alloc_from_buddy_none [OF assms None] None smallest_nonempty_None [of seg order] kept
    show ?thesis by simp
  next
    case (Some i)
    from alloc_from_buddy_some [OF assms(1) Some]
    have post: "alloc_from_buddy_post seg order i (vm_page_seg_alloc_from_buddy seg order)" .
    then have "\<not> (\<exists>seg'. vm_page_seg_alloc_from_buddy seg order = Inr (None, seg'))"
      by (auto simp: alloc_from_buddy_post_def)
    moreover have "\<not> list_all (\<lambda>i. fl_blocks (seg_free_lists seg ! i) = [])
        [order..<VM_PAGE_NR_FREE_LISTS]"
      using Some smallest_nonempty_None [of seg order] by simp
    ultimately show ?thesis using Some post kept by simp
  qed
qed

theorem alloc_from_buddy_correct_witness:
  "seg_buddy_inv seg_4_setup \<and> 0 < VM_PAGE_NR_FREE_LISTS \<and>
   smallest_nonempty seg_4_setup 0 = Some 2 \<and>
   vm_page_seg_alloc_from_buddy seg_4_setup 0 = Inr (Some 0, seg_4_split) \<and>
   alloc_from_buddy_post seg_4_setup 0 2 (Inr (Some 0, seg_4_split)) \<and>
   seg_buddy_inv seg_4_split \<and>
   seg_buddy_inv seg_4_busy \<and>
   list_all (\<lambda>i. fl_blocks (seg_free_lists seg_4_busy ! i) = [])
     [0..<VM_PAGE_NR_FREE_LISTS] \<and>
   vm_page_seg_alloc_from_buddy seg_4_busy 0 = Inr (None, seg_4_busy)"
proof -
  have i1: "seg_buddy_inv seg_4_setup" by code_simp
  have i2: "seg_buddy_inv seg_4_busy" by code_simp
  have n: "0 < VM_PAGE_NR_FREE_LISTS" by (simp add: VM_PAGE_NR_FREE_LISTS_def)
  have s1: "smallest_nonempty seg_4_setup 0 = Some 2" by code_simp
  have s2: "smallest_nonempty seg_4_busy 0 = None" by code_simp
  have r: "vm_page_seg_alloc_from_buddy seg_4_setup 0 = Inr (Some 0, seg_4_split)"
    by code_simp
  from alloc_from_buddy_correct [OF i1 n] alloc_from_buddy_correct [OF i2 n] i1 i2 n s1 s2 r
  show ?thesis by auto
qed

section \<open>vm_page: an order-0 allocation that refills the pool\<close>

lemma buddy_pull_total:
  assumes "seg_buddy_inv seg"
  shows "\<exists>ps seg1. buddy_pull n seg = Inr (ps, seg1) \<and> seg_buddy_inv seg1 \<and>
     seg_cpu_pools seg1 = seg_cpu_pools seg \<and> length ps \<le> n \<and>
     (ps = [] \<longrightarrow> seg1 = seg) \<and>
     (ps \<noteq> [] \<longrightarrow> last ps < length (seg_pages seg1) \<and>
        pg_type (seg_pages seg1 ! last ps) = VM_PT_FREE)"
  using assms
proof (induction n arbitrary: seg)
  case 0
  then show ?case by simp
next
  case (Suc n)
  have z: "0 < VM_PAGE_NR_FREE_LISTS" by (simp add: VM_PAGE_NR_FREE_LISTS_def)
  show ?case
  proof (cases "smallest_nonempty seg 0")
    case None
    from alloc_from_buddy_none [OF Suc.prems z None] Suc.prems show ?thesis by simp
  next
    case (Some i)
    from alloc_from_buddy_some [OF Suc.prems Some]
    obtain page seg' where run: "vm_page_seg_alloc_from_buddy seg 0 = Inr (Some page, seg')"
      by (auto simp: alloc_from_buddy_post_def split: sum.splits option.splits)
    note k = alloc_from_buddy_inv [OF Suc.prems z run]
    from k(2) have pg: "page < length (seg_pages seg')"
      "pg_type (seg_pages seg' ! page) = VM_PT_FREE" by simp_all
    from Suc.IH [OF k(1)] obtain ps seg1 where
      r: "buddy_pull n seg' = Inr (ps, seg1)" and i1: "seg_buddy_inv seg1"
      and c1: "seg_cpu_pools seg1 = seg_cpu_pools seg'" and l1: "length ps \<le> n"
      and e1: "ps = [] \<longrightarrow> seg1 = seg'"
      and f1: "ps \<noteq> [] \<longrightarrow> last ps < length (seg_pages seg1) \<and>
        pg_type (seg_pages seg1 ! last ps) = VM_PT_FREE"
      by blast
    have "buddy_pull (Suc n) seg = Inr (page # ps, seg1)" by (simp add: run r)
    moreover have "last (page # ps) < length (seg_pages seg1) \<and>
        pg_type (seg_pages seg1 ! last (page # ps)) = VM_PT_FREE"
      using pg e1 f1 by (cases "ps = []") simp_all
    ultimately show ?thesis using i1 c1 k(3) l1 by simp
  qed
qed

lemma fill_loop_pull:
  assumes "buddy_pull n seg = Inr (ps, seg1)"
    and "n = nat (pool_transfer_size cpu_pool - i)"
    and "pool_nr_pages cpu_pool + (pool_transfer_size cpu_pool - i) \<le> pool_size cpu_pool"
  shows "vm_page_cpu_pool_fill_loop cpu_pool seg i =
     Inr (i + int (length ps),
          cpu_pool\<lparr>pool_nr_pages := pool_nr_pages cpu_pool + int (length ps),
                   pool_pages := rev ps @ pool_pages cpu_pool\<rparr>,
          seg1)"
  using assms
proof (induction n arbitrary: seg ps cpu_pool i)
  case 0
  then have "\<not> i < pool_transfer_size cpu_pool" by simp
  with 0 show ?case by (subst vm_page_cpu_pool_fill_loop.simps) simp
next
  case (Suc n)
  then have lt: "i < pool_transfer_size cpu_pool" by simp
  show ?case
  proof (cases "vm_page_seg_alloc_from_buddy seg 0")
    case (Inl e)
    with Suc.prems(1) show ?thesis by simp
  next
    case (Inr r)
    obtain po seg' where r: "r = (po, seg')" by (cases r)
    show ?thesis
    proof (cases po)
      case None
      with Inr r Suc.prems(1) have "ps = []" "seg1 = seg'" by simp_all
      with Inr r None lt show ?thesis
        by (subst vm_page_cpu_pool_fill_loop.simps) simp
    next
      case (Some page)
      with Inr r Suc.prems(1) obtain ps' where
        p': "buddy_pull n seg' = Inr (ps', seg1)" and ps: "ps = page # ps'"
        by (auto split: sum.splits)
      let ?pool = "cpu_pool\<lparr>pool_nr_pages := pool_nr_pages cpu_pool + 1,
                     pool_pages := page # pool_pages cpu_pool\<rparr>"
      have push: "vm_page_cpu_pool_push cpu_pool page = Inr ?pool"
        using lt Suc.prems(3) by (simp add: vm_page_cpu_pool_push_def)
      have "vm_page_cpu_pool_fill_loop ?pool seg' (i + 1) =
          Inr (i + 1 + int (length ps'),
               ?pool\<lparr>pool_nr_pages := pool_nr_pages ?pool + int (length ps'),
                      pool_pages := rev ps' @ pool_pages ?pool\<rparr>,
               seg1)"
        using p' Suc.prems(2,3) lt by (intro Suc.IH) simp_all
      with Inr r Some lt push ps show ?thesis
        by (subst vm_page_cpu_pool_fill_loop.simps) simp
    qed
  qed
qed

text \<open>
  Claim C6. An allocation of order 0 in a segment whose state satisfies the buddy
  invariants, by a CPU whose pool for that segment is empty (and can hold a transfer):
  the refill pulls up to \<open>transfer_size\<close> blocks of order 0 from the buddy and pushes them
  onto the pool. If it obtains no page the allocation returns \<open>NULL\<close> and the segment is
  as before. Otherwise the allocation returns the page pushed last, with the requested
  type, and the pool is left with the number of pages transferred minus one. The
  allocation does not fail.
\<close>

theorem seg_alloc_refill:
  assumes inv: "seg_buddy_inv seg" and cpu: "cpu < length (seg_cpu_pools seg)"
    and e1: "pool_nr_pages (seg_cpu_pools seg ! cpu) = 0"
    and e2: "pool_pages (seg_cpu_pools seg ! cpu) = []"
    and cap: "pool_transfer_size (seg_cpu_pools seg ! cpu) \<le> pool_size (seg_cpu_pools seg ! cpu)"
  shows "case buddy_pull (nat (pool_transfer_size (seg_cpu_pools seg ! cpu))) seg of
           Inl e \<Rightarrow> False
         | Inr (ps, seg1) \<Rightarrow>
             length ps \<le> nat (pool_transfer_size (seg_cpu_pools seg ! cpu)) \<and>
             vm_page_seg_alloc cpu seg 0 type =
               (if ps = [] then Inr (None, seg)
                else Inr (Some (last ps), seg_after_refill cpu ps type seg1)) \<and>
             (ps \<noteq> [] \<longrightarrow>
                pool_nr_pages (seg_cpu_pools (seg_after_refill cpu ps type seg1) ! cpu) =
                  int (length ps) - 1)"
proof -
  let ?pool = "seg_cpu_pools seg ! cpu"
  let ?ts = "pool_transfer_size ?pool"
  from buddy_pull_total [OF inv, of "nat ?ts"] obtain ps seg1 where
    bp: "buddy_pull (nat ?ts) seg = Inr (ps, seg1)"
    and c1: "seg_cpu_pools seg1 = seg_cpu_pools seg" and l: "length ps \<le> nat ?ts"
    and em: "ps = [] \<longrightarrow> seg1 = seg"
    and f: "ps \<noteq> [] \<longrightarrow> last ps < length (seg_pages seg1) \<and>
        pg_type (seg_pages seg1 ! last ps) = VM_PT_FREE"
    by blast
  let ?pool' = "?pool\<lparr>pool_nr_pages := int (length ps), pool_pages := rev ps\<rparr>"
  have "vm_page_cpu_pool_fill_loop ?pool seg 0 =
      Inr (0 + int (length ps),
           ?pool\<lparr>pool_nr_pages := pool_nr_pages ?pool + int (length ps),
                  pool_pages := rev ps @ pool_pages ?pool\<rparr>, seg1)"
    using bp by (rule fill_loop_pull) (use e1 cap in simp_all)
  then have fill: "vm_page_cpu_pool_fill ?pool seg = Inr (int (length ps), ?pool', seg1)"
    by (simp add: vm_page_cpu_pool_fill_def e1 e2)
  have z: "0 < VM_PAGE_NR_FREE_LISTS" by (simp add: VM_PAGE_NR_FREE_LISTS_def)
  have run: "vm_page_seg_alloc cpu seg 0 type =
      (if ps = [] then Inr (None, seg)
       else Inr (Some (last ps), seg_after_refill cpu ps type seg1))"
  proof (cases "ps = []")
    case True
    with em have s: "seg1 = seg" by simp
    have "?pool\<lparr>pool_nr_pages := 0, pool_pages := []\<rparr> = ?pool"
      using e1 e2 by simp
    then have "seg_put_pool cpu (?pool\<lparr>pool_nr_pages := 0, pool_pages := []\<rparr>) seg = seg"
      by (simp add: seg_put_pool_def)
    with True s fill z show ?thesis
      by (simp add: vm_page_seg_alloc_def vm_page_cpu_pool_get_def e1 Let_def)
  next
    case False
    with f have pl: "last ps < length (seg_pages seg1)"
      and ty: "pg_type (seg_pages seg1 ! last ps) = VM_PT_FREE" by simp_all
    from False obtain x xs where rv: "rev ps = x # xs" by (cases "rev ps") auto
    then have "hd (rev ps) = x" by simp
    with False have x: "last ps = x" by (simp add: hd_rev)
    have pop: "vm_page_cpu_pool_pop ?pool' =
        Inr (last ps, ?pool\<lparr>pool_nr_pages := int (length ps) - 1, pool_pages := tl (rev ps)\<rparr>)"
      using False by (simp add: vm_page_cpu_pool_pop_def rv x)
    have st: "vm_page_set_type (seg_pages seg1) (last ps) 0 type =
        Inr ((seg_pages seg1)[last ps := (seg_pages seg1 ! last ps)\<lparr>pg_type := type\<rparr>])"
      using pl by (simp add: vm_page_set_type_def)
    have "vm_page_seg_alloc_pop cpu ?pool' seg1 type =
        Inr (Some (last ps), seg_after_refill cpu ps type seg1)"
      using pl ty st
      by (simp add: vm_page_seg_alloc_pop_def pop vm_page_seg_alloc_finish_def seg_put_pool_def
          seg_after_refill_def c1)
    with False fill z show ?thesis
      by (simp add: vm_page_seg_alloc_def vm_page_cpu_pool_get_def e1 Let_def)
  qed
  have nr: "pool_nr_pages (seg_cpu_pools (seg_after_refill cpu ps type seg1) ! cpu) =
      int (length ps) - 1"
    using cpu by (simp add: seg_after_refill_def c1)
  from bp l run nr show ?thesis by simp
qed

theorem seg_alloc_refill_witness:
  "seg_buddy_inv seg_4_fresh \<and> 0 < length (seg_cpu_pools seg_4_fresh) \<and>
   pool_nr_pages (seg_cpu_pools seg_4_fresh ! 0) = 0 \<and>
   pool_pages (seg_cpu_pools seg_4_fresh ! 0) = [] \<and>
   pool_size (seg_cpu_pools seg_4_fresh ! 0) = 3 \<and>
   pool_transfer_size (seg_cpu_pools seg_4_fresh ! 0) = 2 \<and>
   buddy_pull 2 seg_4_fresh = Inr ([0, 1], seg_4_pulled) \<and>
   vm_page_seg_alloc 0 seg_4_fresh 0 VM_PT_KERNEL = Inr (Some 1, seg_4_refilled) \<and>
   pool_nr_pages (seg_cpu_pools seg_4_refilled ! 0) = 1 \<and>
   seg_buddy_inv seg_4_busy \<and>
   pool_nr_pages (seg_cpu_pools seg_4_busy ! 0) = 0 \<and>
   buddy_pull 1 seg_4_busy = Inr ([], seg_4_busy) \<and>
   vm_page_seg_alloc 0 seg_4_busy 0 VM_PT_KERNEL = Inr (None, seg_4_busy)"
proof -
  have i1: "seg_buddy_inv seg_4_fresh" by code_simp
  have c1: "0 < length (seg_cpu_pools seg_4_fresh)" by code_simp
  have n1: "pool_nr_pages (seg_cpu_pools seg_4_fresh ! 0) = 0" by code_simp
  have p1: "pool_pages (seg_cpu_pools seg_4_fresh ! 0) = []" by code_simp
  have s1: "pool_size (seg_cpu_pools seg_4_fresh ! 0) = 3" by code_simp
  have t1: "pool_transfer_size (seg_cpu_pools seg_4_fresh ! 0) = 2" by code_simp
  have b1: "buddy_pull 2 seg_4_fresh = Inr ([0, 1], seg_4_pulled)" by code_simp
  have a1: "seg_after_refill 0 [0, 1] VM_PT_KERNEL seg_4_pulled = seg_4_refilled" by code_simp
  have i2: "seg_buddy_inv seg_4_busy" by code_simp
  have c2: "0 < length (seg_cpu_pools seg_4_busy)" by code_simp
  have n2: "pool_nr_pages (seg_cpu_pools seg_4_busy ! 0) = 0" by code_simp
  have p2: "pool_pages (seg_cpu_pools seg_4_busy ! 0) = []" by code_simp
  have t2: "pool_transfer_size (seg_cpu_pools seg_4_busy ! 0) = 1" by code_simp
  have s2: "pool_size (seg_cpu_pools seg_4_busy ! 0) = 1" by code_simp
  have b2: "buddy_pull 1 seg_4_busy = Inr ([], seg_4_busy)" by code_simp
  have two: "nat 2 = 2" "nat 1 = 1" by simp_all
  from seg_alloc_refill [OF i1 c1 n1 p1, of VM_PT_KERNEL]
    seg_alloc_refill [OF i2 c2 n2 p2, of VM_PT_KERNEL]
    i1 c1 n1 p1 s1 t1 b1 a1 i2 n2 t2 s2 b2 two
  show ?thesis by simp
qed

end
